theory Spec2Isabelle
  imports Main "HOL-Library.Word"
begin

unbundle bit_operations_syntax

section \<open>The UTF-8 structural scanner (utf8.h)\<close>

type_synonym uint8_t = "8 word"
type_synonym uint32_t = "32 word"

definition UTF8_ACCEPT :: uint32_t where
  "UTF8_ACCEPT = 0"

definition UTF8_REJECT :: uint32_t where
  "UTF8_REJECT = 12"

text \<open>
  The table \<^verbatim>\<open>utf8d\<close>: 256 entries mapping a byte to its character class, then
  9 rows of 12 entries mapping state + class to the next state.
\<close>

definition utf8d :: "uint8_t list" where
  "utf8d =
    [0, 0, 0, 0, 0, 0, 0, 0, 0, 0, 0, 0, 0, 0, 0, 0, 0, 0, 0, 0, 0, 0, 0, 0, 0, 0, 0, 0, 0, 0, 0, 0,
     0, 0, 0, 0, 0, 0, 0, 0, 0, 0, 0, 0, 0, 0, 0, 0, 0, 0, 0, 0, 0, 0, 0, 0, 0, 0, 0, 0, 0, 0, 0, 0,
     0, 0, 0, 0, 0, 0, 0, 0, 0, 0, 0, 0, 0, 0, 0, 0, 0, 0, 0, 0, 0, 0, 0, 0, 0, 0, 0, 0, 0, 0, 0, 0,
     0, 0, 0, 0, 0, 0, 0, 0, 0, 0, 0, 0, 0, 0, 0, 0, 0, 0, 0, 0, 0, 0, 0, 0, 0, 0, 0, 0, 0, 0, 0, 0,
     1, 1, 1, 1, 1, 1, 1, 1, 1, 1, 1, 1, 1, 1, 1, 1, 9, 9, 9, 9, 9, 9, 9, 9, 9, 9, 9, 9, 9, 9, 9, 9,
     7, 7, 7, 7, 7, 7, 7, 7, 7, 7, 7, 7, 7, 7, 7, 7, 7, 7, 7, 7, 7, 7, 7, 7, 7, 7, 7, 7, 7, 7, 7, 7,
     8, 8, 2, 2, 2, 2, 2, 2, 2, 2, 2, 2, 2, 2, 2, 2, 2, 2, 2, 2, 2, 2, 2, 2, 2, 2, 2, 2, 2, 2, 2, 2,
     10, 3, 3, 3, 3, 3, 3, 3, 3, 3, 3, 3, 3, 4, 3, 3, 11, 6, 6, 6, 5, 8, 8, 8, 8, 8, 8, 8, 8, 8, 8, 8,
     0, 12, 24, 36, 60, 96, 84, 12, 12, 12, 48, 72,
     12, 12, 12, 12, 12, 12, 12, 12, 12, 12, 12, 12,
     12, 0, 12, 12, 12, 12, 12, 0, 12, 0, 12, 12,
     12, 24, 12, 12, 12, 12, 12, 24, 12, 24, 12, 12,
     12, 12, 12, 12, 12, 12, 12, 24, 12, 12, 12, 12,
     12, 24, 12, 12, 12, 12, 12, 12, 12, 24, 12, 12,
     12, 12, 12, 12, 12, 12, 12, 36, 12, 36, 12, 12,
     12, 36, 12, 12, 12, 12, 12, 36, 12, 36, 12, 12,
     12, 36, 12, 12, 12, 12, 12, 12, 12, 12, 12, 12]"

text \<open>
  One step of the decoder. The C function updates \<^verbatim>\<open>*state\<close> and \<^verbatim>\<open>*codep\<close> in place and
  returns the new state; the model returns the pair (new state, new codepoint). The byte
  parameter is a \<^verbatim>\<open>uint32_t\<close>; every caller passes a \<^verbatim>\<open>uint8_t\<close>, so the first lookup
  stays below 256.
\<close>

definition utf8_decode :: "uint32_t \<Rightarrow> uint32_t \<Rightarrow> uint32_t \<Rightarrow> uint32_t \<times> uint32_t" where
  "utf8_decode state codep byte =
     (let type = (ucast (utf8d ! unat byte) :: uint32_t);
          codep' = (if state \<noteq> UTF8_ACCEPT
                    then (byte AND 0x3f) OR (push_bit 6 codep)
                    else (drop_bit (unat type) 0xff) AND byte);
          state' = (ucast (utf8d ! unat (256 + state + type)) :: uint32_t)
      in (state', codep'))"

section \<open>The transcoder (xtf8.c)\<close>

definition XTF8_PUA_START :: uint32_t where
  "XTF8_PUA_START = 0xEF80"

definition XTF8_PUA_END :: uint32_t where
  "XTF8_PUA_END = 0xEFFF"

definition XTF8_ERR_REPLACE :: int where
  "XTF8_ERR_REPLACE = 0"

definition XTF8_ERR_ABORT :: int where
  "XTF8_ERR_ABORT = 1"

definition NULL :: nat where
  "NULL = 0"

text \<open>
  \<^verbatim>\<open>is_utf8\<close>: run the scanner over the first \<open>len\<close> bytes of \<open>data\<close>, starting in
  \<^verbatim>\<open>UTF8_ACCEPT\<close>, and test the final state.
\<close>

definition is_utf8_step :: "uint32_t \<times> uint32_t \<Rightarrow> uint8_t \<Rightarrow> uint32_t \<times> uint32_t" where
  "is_utf8_step sc p = utf8_decode (fst sc) (snd sc) (ucast p)"

definition is_utf8 :: "uint8_t list \<Rightarrow> nat \<Rightarrow> bool" where
  "is_utf8 data len = (fst (foldl is_utf8_step (UTF8_ACCEPT, 0) (take len data)) = UTF8_ACCEPT)"

text \<open>
  The ways a call stops without returning a size or an end pointer: the abort sentinel
  \<^verbatim>\<open>(uintptr_t)-1\<close>, and the four assertions of a build without \<^verbatim>\<open>NDEBUG\<close>.
\<close>

datatype xtf8_failure =
    XTF8_ABORTED
  | Assert_non_ascii
  | Assert_v_non_ascii
  | Assert_dst_end
  | Assert_is_utf8

text \<open>
  The local variables that the transcoder and the JSON functions share: the destination
  pointer \<open>d\<close>, the source pointer \<open>s\<close> and the counter \<open>sz\<close>. The source pointer is an
  offset from \<^verbatim>\<open>src\<close>, and \<^verbatim>\<open>end\<close> is \<open>length src\<close>. The destination pointer is an address
  (\<open>NULL\<close> is 0), and \<open>mem\<close> lists the bytes stored through \<open>d\<close> so far, in order: every
  store in the source is \<^verbatim>\<open>*d++ = x\<close>, so \<open>mem\<close> is the content of the destination buffer
  from \<^verbatim>\<open>dst\<close> on. The counter \<open>sz\<close> is a natural number: \<^verbatim>\<open>size_t\<close> is taken wide enough
  for the output length.
\<close>

record cursor =
  d :: nat
  mem :: "uint8_t list"
  s :: nat
  sz :: nat

text \<open>The other locals of \<^verbatim>\<open>xtf8_encode\<close> and \<^verbatim>\<open>xtf8_decode\<close>; \<open>pos\<close> is an offset too.\<close>

record xtf8_state = cursor +
  s_prev :: uint32_t
  s_cur :: uint32_t
  codepoint :: uint32_t
  pos :: nat

text \<open>The other local of \<^verbatim>\<open>json_unescape\<close>.\<close>

record json_state = cursor +
  escape :: bool

text \<open>\<^verbatim>\<open>*d++ = x\<close>\<close>

definition store :: "uint8_t \<Rightarrow> 'a cursor_scheme \<Rightarrow> 'a cursor_scheme" where
  "store x st = st\<lparr>mem := mem st @ [x], d := d st + 1\<rparr>"

text \<open>The three stores that write a codepoint as a 3-byte UTF-8 sequence.\<close>

definition utf8_3 :: "uint32_t \<Rightarrow> uint8_t list" where
  "utf8_3 c =
     [ucast ((drop_bit 12 c AND 0x0F) OR 0xE0),
      ucast ((drop_bit 6 c AND 0x3F) OR 0x80),
      ucast ((c AND 0x3F) OR 0x80)]"

definition put_utf8_3 :: "xtf8_state \<Rightarrow> xtf8_state" where
  "put_utf8_3 st =
     store (ucast ((codepoint st AND 0x3F) OR 0x80))
       (store (ucast ((drop_bit 6 (codepoint st) AND 0x3F) OR 0x80))
          (store (ucast ((drop_bit 12 (codepoint st) AND 0x0F) OR 0xE0)) st))"

text \<open>\<^verbatim>\<open>while (pos <= s) *d++ = *pos++;\<close>\<close>

function copy_loop :: "uint8_t list \<Rightarrow> xtf8_state \<Rightarrow> xtf8_state" where
  "copy_loop src st =
     (if pos st \<le> s st
      then copy_loop src ((store (src ! pos st) st)\<lparr>pos := pos st + 1\<rparr>)
      else st)"
  by pat_completeness auto
termination
  by (relation "measure (\<lambda>(src, st). Suc (s st) - pos st)") (auto simp: store_def)

text \<open>
  The loop of the REJECT branch of \<^verbatim>\<open>xtf8_encode\<close>: every pending byte becomes a codepoint
  of U+EF80..U+EFFF. The assertion is a branch of the model.
\<close>

function pua_loop :: "uint8_t list \<Rightarrow> xtf8_state \<Rightarrow> xtf8_failure option \<times> xtf8_state" where
  "pua_loop src st =
     (if pos st \<le> s st
      then (if \<not> (src ! pos st \<ge> 0x80) then (Some Assert_non_ascii, st)
            else let st1 = st\<lparr>sz := sz st + 3\<rparr>;
                     st2 = (if d st1 \<noteq> NULL
                            then put_utf8_3 (st1\<lparr>codepoint := 0xEF80 OR (ucast (src ! pos st1) AND 0x7F)\<rparr>)
                            else st1)
                 in pua_loop src (st2\<lparr>pos := pos st2 + 1\<rparr>))
      else (None, st))"
  by pat_completeness auto
termination
  by (relation "measure (\<lambda>(src, st). Suc (s st) - pos st)")
     (auto simp: store_def put_utf8_3_def)

text \<open>The end of every iteration of the main loops: \<^verbatim>\<open>s_prev = s_cur; s++;\<close>\<close>

definition next_iter :: "xtf8_state \<Rightarrow> xtf8_state" where
  "next_iter st = st\<lparr>s_prev := s_cur st, s := s st + 1\<rparr>"

text \<open>
  One iteration of the \<^verbatim>\<open>while (s < end)\<close> loop of \<^verbatim>\<open>xtf8_encode\<close>. The result is
  \<open>(Some f, st)\<close> when the function stops inside the iteration and \<open>(None, st)\<close> when the
  loop goes on. The offsets are natural numbers, so \<open>s - 1\<close> and \<open>1 + s - pos\<close> stop at 0
  where the C pointers would leave the buffer or the size would wrap; the loop invariants
  (\<open>xtf8_encode_inv\<close> and \<open>xtf8_decode_inv\<close> below) show that \<open>pos \<le> s\<close> holds at every
  iteration and that the rewind \<^verbatim>\<open>s--\<close> is taken only with \<open>pos < s\<close>, so neither happens.
\<close>

definition xtf8_encode_body ::
  "uint8_t list \<Rightarrow> int \<Rightarrow> xtf8_state \<Rightarrow> xtf8_failure option \<times> xtf8_state" where
  "xtf8_encode_body src error st0 =
     (let r = utf8_decode (s_cur st0) (codepoint st0) (ucast (src ! s st0));
          st = st0\<lparr>s_cur := fst r, codepoint := snd r\<rparr>
      in if fst r = UTF8_ACCEPT then
           (if codepoint st \<ge> XTF8_PUA_START \<and> codepoint st \<le> XTF8_PUA_END then
              (if error = XTF8_ERR_ABORT then (Some XTF8_ABORTED, st)
               else let st1 = st\<lparr>codepoint := 0xFFFD, sz := sz st + 3\<rparr>;
                        st2 = (if d st1 \<noteq> NULL then put_utf8_3 st1 else st1)
                    in (None, next_iter (st2\<lparr>pos := s st2 + 1\<rparr>)))
            else
              (let st1 = st\<lparr>sz := sz st + (1 + s st - pos st)\<rparr>;
                   st2 = (if d st1 \<noteq> NULL then copy_loop src st1 else st1)
               in (None, next_iter (st2\<lparr>pos := s st2 + 1\<rparr>))))
         else if fst r = UTF8_REJECT then
           (let st1 = st\<lparr>s_cur := UTF8_ACCEPT\<rparr>;
                st2 = (if s_prev st1 \<noteq> UTF8_ACCEPT then st1\<lparr>s := s st1 - 1\<rparr> else st1)
            in case pua_loop src st2 of
                 (Some f, st3) \<Rightarrow> (Some f, st3)
               | (None, st3) \<Rightarrow> (None, next_iter st3))
         else (None, next_iter st))"


declare copy_loop.simps [simp del]
declare pua_loop.simps [simp del]

lemma copy_loop_frame:
  "s (copy_loop src st) = s st \<and> s_prev (copy_loop src st) = s_prev st \<and>
   s_cur (copy_loop src st) = s_cur st \<and> sz (copy_loop src st) = sz st \<and>
   codepoint (copy_loop src st) = codepoint st"
proof (induction src st rule: copy_loop.induct)
  case (1 src st)
  show ?case
  proof (cases "pos st \<le> s st")
    case True
    with 1 show ?thesis
      by (subst (1 2 3 4 5) copy_loop.simps) (simp add: store_def)
  next
    case False
    then show ?thesis
      by (subst (1 2 3 4 5) copy_loop.simps) simp
  qed
qed

lemma pua_loop_frame:
  "s (snd (pua_loop src st)) = s st \<and> s_prev (snd (pua_loop src st)) = s_prev st \<and>
   s_cur (snd (pua_loop src st)) = s_cur st"
proof (induction src st rule: pua_loop.induct)
  case (1 src st)
  show ?case
  proof (cases "pos st \<le> s st \<and> src ! pos st \<ge> 0x80")
    case True
    with 1 show ?thesis
      by (subst (1 2 3) pua_loop.simps) (simp add: store_def put_utf8_3_def Let_def)
  next
    case False
    then show ?thesis
      by (subst (1 2 3) pua_loop.simps) auto
  qed
qed

lemma xtf8_encode_body_progress:
  assumes "xtf8_encode_body src error st = (None, st')"
  shows "s st' = s st + 1 \<or> (s st' = s st \<and> s_prev st \<noteq> UTF8_ACCEPT \<and> s_prev st' = UTF8_ACCEPT)"
proof -
  let ?r = "utf8_decode (s_cur st) (codepoint st) (ucast (src ! s st))"
  let ?st = "st\<lparr>s_cur := fst ?r, codepoint := snd ?r\<rparr>"
  let ?st2 = "(if s_prev st \<noteq> UTF8_ACCEPT
               then ?st\<lparr>s_cur := UTF8_ACCEPT, s := s st - 1\<rparr>
               else ?st\<lparr>s_cur := UTF8_ACCEPT\<rparr>)"
  have fr: "s (snd (pua_loop src ?st2)) = s ?st2"
           "s_cur (snd (pua_loop src ?st2)) = s_cur ?st2"
    using pua_loop_frame [of src ?st2] by simp_all
  show ?thesis
  proof (cases "fst ?r = UTF8_REJECT")
    case True
    then have na: "fst ?r \<noteq> UTF8_ACCEPT"
      by (simp add: UTF8_ACCEPT_def UTF8_REJECT_def)
    obtain f st3 where p: "pua_loop src ?st2 = (f, st3)"
      by (cases "pua_loop src ?st2")
    from assms True na p have "f = None" and st': "st' = next_iter st3"
      by (auto simp: xtf8_encode_body_def Let_def split: option.splits if_splits)
    from fr p have "s st3 = s ?st2" "s_cur st3 = UTF8_ACCEPT"
      by (auto split: if_splits)
    with st' show ?thesis
      by (cases "s st") (auto simp: next_iter_def split: if_splits)
  next
    case False
    with assms show ?thesis
      by (auto simp: xtf8_encode_body_def Let_def next_iter_def copy_loop_frame
                     put_utf8_3_def store_def
               split: if_splits)
  qed
qed

text \<open>
  The \<^verbatim>\<open>while (s < end)\<close> loop of \<^verbatim>\<open>xtf8_encode\<close>. An iteration either advances \<open>s\<close>
  or, after the one-byte rewind, leaves \<open>s\<close> where it was with \<open>s_prev\<close> back at
  \<^verbatim>\<open>UTF8_ACCEPT\<close>, which the next iteration cannot repeat.
\<close>

function xtf8_encode_loop ::
  "uint8_t list \<Rightarrow> int \<Rightarrow> xtf8_state \<Rightarrow> xtf8_failure option \<times> xtf8_state" where
  "xtf8_encode_loop src error st =
     (if s st < length src
      then (case xtf8_encode_body src error st of
              (Some f, st') \<Rightarrow> (Some f, st')
            | (None, st') \<Rightarrow> xtf8_encode_loop src error st')
      else (None, st))"
  by pat_completeness auto
termination
  apply (relation "measure (\<lambda>(src, error, st).
           2 * (length src - s st) + (if s_prev st \<noteq> UTF8_ACCEPT then 1 else 0))")
   apply simp
  apply (auto dest!: xtf8_encode_body_progress [OF sym])
  done

declare xtf8_encode_loop.simps [simp del]

text \<open>
  \<^verbatim>\<open>xtf8_encode(dst, src, len, error)\<close> with \<open>len = length src\<close>. The result pairs what the
  call returns (\<open>Inr\<close> the \<^verbatim>\<open>uintptr_t\<close>: the size when \<open>dst\<close> is \<open>NULL\<close>, the end pointer
  otherwise; \<open>Inl\<close> the sentinel or a failed assertion) with the bytes stored into the
  destination. The local \<^verbatim>\<open>codepoint\<close> starts uninitialised in C; the first scanner step,
  taken in \<^verbatim>\<open>UTF8_ACCEPT\<close>, overwrites it, and the model starts it at 0.
\<close>

definition xtf8_init :: "nat \<Rightarrow> xtf8_state" where
  "xtf8_init dst =
     \<lparr>d = dst, mem = [], s = 0, sz = 0,
      s_prev = UTF8_ACCEPT, s_cur = UTF8_ACCEPT, codepoint = 0, pos = 0\<rparr>"

definition xtf8_encode ::
  "nat \<Rightarrow> uint8_t list \<Rightarrow> int \<Rightarrow> (xtf8_failure + nat) \<times> uint8_t list" where
  "xtf8_encode dst src error =
     (case xtf8_encode_loop src error (xtf8_init dst) of
        (Some f, st) \<Rightarrow> (Inl f, mem st)
      | (None, st) \<Rightarrow>
          if d st \<noteq> NULL then
            (if \<not> (dst + sz st = d st) then (Inl Assert_dst_end, mem st)
             else if \<not> is_utf8 (mem st) (sz st) then (Inl Assert_is_utf8, mem st)
             else (Inr (d st), mem st))
          else (Inr (sz st), mem st))"


text \<open>
  One iteration of the loop of \<^verbatim>\<open>xtf8_decode\<close>. The byte \<open>v\<close> recovered from a codepoint
  of the reserved range is \<open>pua_byte\<close>; the assertion on it is a branch of the model.
\<close>

definition pua_byte :: "uint32_t \<Rightarrow> uint8_t" where
  "pua_byte c = ucast ((c AND 0x7F) OR 0x80)"

definition xtf8_decode_body ::
  "uint8_t list \<Rightarrow> int \<Rightarrow> xtf8_state \<Rightarrow> xtf8_failure option \<times> xtf8_state" where
  "xtf8_decode_body src error st0 =
     (let r = utf8_decode (s_cur st0) (codepoint st0) (ucast (src ! s st0));
          st = st0\<lparr>s_cur := fst r, codepoint := snd r\<rparr>
      in if fst r = UTF8_ACCEPT then
           (if codepoint st \<ge> XTF8_PUA_START \<and> codepoint st \<le> XTF8_PUA_END then
              (let v = pua_byte (codepoint st)
               in if \<not> (v \<ge> 0x80) then (Some Assert_v_non_ascii, st)
                  else let st1 = st\<lparr>sz := sz st + 1\<rparr>;
                           st2 = (if d st1 \<noteq> NULL then store v st1 else st1)
                       in (None, next_iter (st2\<lparr>pos := s st2 + 1\<rparr>)))
            else
              (let st1 = st\<lparr>sz := sz st + (1 + s st - pos st)\<rparr>;
                   st2 = (if d st1 \<noteq> NULL then copy_loop src st1 else st1)
               in (None, next_iter (st2\<lparr>pos := s st2 + 1\<rparr>))))
         else if fst r = UTF8_REJECT then
           (if error = XTF8_ERR_ABORT then (Some XTF8_ABORTED, st)
            else let st1 = st\<lparr>s_cur := UTF8_ACCEPT\<rparr>;
                     st2 = (if s_prev st1 \<noteq> UTF8_ACCEPT then st1\<lparr>s := s st1 - 1\<rparr> else st1);
                     st3 = st2\<lparr>codepoint := 0xFFFD, sz := sz st2 + 3\<rparr>;
                     st4 = (if d st3 \<noteq> NULL then put_utf8_3 st3 else st3)
                 in (None, next_iter (st4\<lparr>pos := s st4 + 1\<rparr>)))
         else (None, next_iter st))"

lemma xtf8_decode_body_progress:
  assumes "xtf8_decode_body src error st = (None, st')"
  shows "s st' = s st + 1 \<or> (s st' = s st \<and> s_prev st \<noteq> UTF8_ACCEPT \<and> s_prev st' = UTF8_ACCEPT)"
  using assms
  by (cases "s st")
     (auto simp: xtf8_decode_body_def Let_def next_iter_def copy_loop_frame
                 put_utf8_3_def store_def
           split: if_splits)

function xtf8_decode_loop ::
  "uint8_t list \<Rightarrow> int \<Rightarrow> xtf8_state \<Rightarrow> xtf8_failure option \<times> xtf8_state" where
  "xtf8_decode_loop src error st =
     (if s st < length src
      then (case xtf8_decode_body src error st of
              (Some f, st') \<Rightarrow> (Some f, st')
            | (None, st') \<Rightarrow> xtf8_decode_loop src error st')
      else (None, st))"
  by pat_completeness auto
termination
  apply (relation "measure (\<lambda>(src, error, st).
           2 * (length src - s st) + (if s_prev st \<noteq> UTF8_ACCEPT then 1 else 0))")
   apply simp
  apply (auto dest!: xtf8_decode_body_progress [OF sym])
  done

declare xtf8_decode_loop.simps [simp del]

text \<open>\<^verbatim>\<open>xtf8_decode(dst, src, len, error)\<close>, read as \<open>xtf8_encode\<close> is.\<close>

definition xtf8_decode ::
  "nat \<Rightarrow> uint8_t list \<Rightarrow> int \<Rightarrow> (xtf8_failure + nat) \<times> uint8_t list" where
  "xtf8_decode dst src error =
     (case xtf8_decode_loop src error (xtf8_init dst) of
        (Some f, st) \<Rightarrow> (Inl f, mem st)
      | (None, st) \<Rightarrow>
          if d st \<noteq> NULL then
            (if \<not> (dst + sz st = d st) then (Inl Assert_dst_end, mem st)
             else (Inr (d st), mem st))
          else (Inr (sz st), mem st))"

section \<open>The JSON string escaper (xtf8_main.c)\<close>

text \<open>The sizing loop of \<^verbatim>\<open>json_escape\<close>, run when \<open>dst\<close> is \<open>NULL\<close>.\<close>

function json_escape_size_loop :: "uint8_t list \<Rightarrow> cursor \<Rightarrow> cursor" where
  "json_escape_size_loop src st =
     (if s st < length src then
        (let ch = src ! s st;
             st1 = st\<lparr>s := s st + 1\<rparr>
         in if ch \<le> 0x1F then
              (let st2 = st1\<lparr>sz := sz st1 + 1\<rparr>
               in if ch = 0x0A \<or> ch = 0x0D \<or> ch = 0x09 \<or> ch = 0x08 \<or> ch = 0x0C
                  then json_escape_size_loop src (st2\<lparr>sz := sz st2 + 1\<rparr>)
                  else json_escape_size_loop src (st2\<lparr>sz := sz st2 + (7 - 2)\<rparr>))
            else
              (let st2 = (if ch = 0x5C \<or> ch = 0x22 then st1\<lparr>sz := sz st1 + 1\<rparr> else st1)
               in json_escape_size_loop src (st2\<lparr>sz := sz st2 + 1\<rparr>)))
      else st)"
  by pat_completeness auto
termination
  by (relation "measure (\<lambda>(src, st). length src - s st)") auto

text \<open>The writing loop of \<^verbatim>\<open>json_escape\<close>.\<close>

function json_escape_write_loop :: "uint8_t list \<Rightarrow> cursor \<Rightarrow> cursor" where
  "json_escape_write_loop src st =
     (if s st < length src then
        (let ch = src ! s st;
             st1 = st\<lparr>s := s st + 1\<rparr>
         in if ch \<le> 0x1F then
              (let st2 = store 0x5C st1
               in if ch = 0x0A then json_escape_write_loop src (store 0x6E st2)
                  else if ch = 0x0D then json_escape_write_loop src (store 0x72 st2)
                  else if ch = 0x09 then json_escape_write_loop src (store 0x74 st2)
                  else if ch = 0x08 then json_escape_write_loop src (store 0x62 st2)
                  else if ch = 0x0C then json_escape_write_loop src (store 0x66 st2)
                  else
                    (let st3 = store (0x30 + drop_bit 4 ch)
                                 (store 0x30 (store 0x30 (store 0x75 st2)));
                         ch' = ch AND 0xF
                     in json_escape_write_loop src
                          (store (if ch' < 10 then 0x30 + ch' else 0x41 + ch' - 10) st3)))
            else
              (let st2 = (if ch = 0x5C \<or> ch = 0x22 then store 0x5C st1 else st1)
               in json_escape_write_loop src (store ch st2)))
      else st)"
  by pat_completeness auto
termination
  by (relation "measure (\<lambda>(src, st). length src - s st)") (auto simp: store_def)

declare json_escape_size_loop.simps [simp del]
declare json_escape_write_loop.simps [simp del]

text \<open>
  \<^verbatim>\<open>json_escape(dst, src, len)\<close>: the value returned (the size when \<open>dst\<close> is \<open>NULL\<close>, the
  end pointer otherwise) and the bytes stored.
\<close>

definition json_escape :: "nat \<Rightarrow> uint8_t list \<Rightarrow> nat \<times> uint8_t list" where
  "json_escape dst src =
     (let st = \<lparr>d = dst, mem = [], s = 0, sz = 0\<rparr>
      in if d st = NULL
         then (let st' = json_escape_size_loop src st in (sz st', mem st'))
         else (let st' = json_escape_write_loop src st in (d st', mem st')))"

datatype json_failure = JSON_ERR_UNESCAPE

text \<open>
  The inner loop of the \<^verbatim>\<open>'u'\<close> case of \<^verbatim>\<open>json_unescape\<close>: the four characters after
  the \<^verbatim>\<open>u\<close> at offset \<open>s0\<close>, upper-case hexadecimal digits, accumulated into the
  codepoint; \<open>None\<close> at a character that is no such digit.
\<close>

function json_xdigits :: "uint8_t list \<Rightarrow> nat \<Rightarrow> nat \<Rightarrow> uint32_t \<Rightarrow> uint32_t option" where
  "json_xdigits src s0 i cp =
     (if i < 5 then
        (let ch = (uint (src ! (s0 + i)) :: int)
         in if ch \<ge> 0x30 \<and> ch \<le> 0x39
            then json_xdigits src s0 (i + 1) (push_bit 4 cp OR word_of_int (ch - 0x30))
            else if ch \<ge> 0x41 \<and> ch \<le> 0x46
            then json_xdigits src s0 (i + 1) (push_bit 4 cp OR word_of_int (ch - 0x41 + 10))
            else None)
      else Some cp)"
  by pat_completeness auto
termination
  by (relation "measure (\<lambda>(src, s0, i, cp). 5 - i)") auto

declare json_xdigits.simps [simp del]

text \<open>
  The \<^verbatim>\<open>for (s = src; s < end; s++)\<close> loop of \<^verbatim>\<open>json_unescape\<close>; \<open>Inl\<close> where the
  source returns \<^verbatim>\<open>JSON_ERR_UNESCAPE\<close> from inside the loop.
\<close>

definition json_put :: "uint8_t \<Rightarrow> json_state \<Rightarrow> json_state" where
  "json_put x st =
     (let st1 = st\<lparr>sz := sz st + 1\<rparr>
      in if d st1 \<noteq> NULL then store x st1 else st1)"

function json_unescape_loop :: "uint8_t list \<Rightarrow> json_state \<Rightarrow> json_failure + json_state" where
  "json_unescape_loop src st =
     (if s st < length src then
        (let c = src ! s st
         in if escape st then
              (if c = 0x5C then
                 json_unescape_loop src ((json_put 0x5C st)\<lparr>escape := False, s := s st + 1\<rparr>)
               else if c = 0x22 then
                 json_unescape_loop src ((json_put 0x22 st)\<lparr>escape := False, s := s st + 1\<rparr>)
               else if c = 0x6E then
                 json_unescape_loop src ((json_put 0x0A st)\<lparr>escape := False, s := s st + 1\<rparr>)
               else if c = 0x72 then
                 json_unescape_loop src ((json_put 0x0D st)\<lparr>escape := False, s := s st + 1\<rparr>)
               else if c = 0x74 then
                 json_unescape_loop src ((json_put 0x09 st)\<lparr>escape := False, s := s st + 1\<rparr>)
               else if c = 0x62 then
                 json_unescape_loop src ((json_put 0x08 st)\<lparr>escape := False, s := s st + 1\<rparr>)
               else if c = 0x66 then
                 json_unescape_loop src ((json_put 0x0C st)\<lparr>escape := False, s := s st + 1\<rparr>)
               else if c = 0x75 then
                 (if s st + 5 \<ge> length src then Inl JSON_ERR_UNESCAPE
                  else case json_xdigits src (s st) 1 0 of
                         None \<Rightarrow> Inl JSON_ERR_UNESCAPE
                       | Some cp \<Rightarrow>
                           if cp > 0x1F then Inl JSON_ERR_UNESCAPE
                           else json_unescape_loop src
                                  ((json_put (ucast cp) (st\<lparr>s := s st + 4\<rparr>))
                                     \<lparr>escape := False, s := s st + 4 + 1\<rparr>))
               else Inl JSON_ERR_UNESCAPE)
            else if c = 0x5C then
              json_unescape_loop src (st\<lparr>escape := True, s := s st + 1\<rparr>)
            else
              json_unescape_loop src ((json_put c st)\<lparr>s := s st + 1\<rparr>))
      else Inr st)"
  by pat_completeness auto
termination
  by (relation "measure (\<lambda>(src, st). length src - s st)")
     (auto simp: json_put_def store_def Let_def)

declare json_unescape_loop.simps [simp del]

text \<open>\<^verbatim>\<open>json_unescape(dst, src, len)\<close>: what it returns, and the bytes stored.\<close>

definition json_unescape :: "nat \<Rightarrow> uint8_t list \<Rightarrow> json_failure + (nat \<times> uint8_t list)" where
  "json_unescape dst src =
     (case json_unescape_loop src \<lparr>d = dst, mem = [], s = 0, sz = 0, escape = False\<rparr> of
        Inl f \<Rightarrow> Inl f
      | Inr st \<Rightarrow>
          if escape st then Inl JSON_ERR_UNESCAPE
          else Inr (if d st \<noteq> NULL then d st else sz st, mem st))"


section \<open>Notions for stating and proving the properties\<close>

text \<open>
  The two table lookups of \<^verbatim>\<open>utf8_decode\<close>, named: the class of a byte and the state
  reached from a state on a class; \<open>utf8_next\<close> is the state component of one step
  (\<open>utf8_decode_fst\<close> below), and \<open>utf8_scan\<close> runs it over a buffer. The states other than
  \<^verbatim>\<open>UTF8_REJECT\<close> that the table holds are \<open>utf8_states\<close>.
\<close>

definition utf8_class :: "uint8_t \<Rightarrow> uint32_t" where
  "utf8_class b = ucast (utf8d ! unat (ucast b :: uint32_t))"

definition utf8_trans :: "uint32_t \<Rightarrow> uint32_t \<Rightarrow> uint32_t" where
  "utf8_trans st cl = ucast (utf8d ! unat (256 + st + cl))"

definition utf8_next :: "uint32_t \<Rightarrow> uint8_t \<Rightarrow> uint32_t" where
  "utf8_next st b = utf8_trans st (utf8_class b)"

definition utf8_scan :: "uint32_t \<Rightarrow> uint8_t list \<Rightarrow> uint32_t" where
  "utf8_scan st bs = foldl utf8_next st bs"

definition utf8_states :: "uint32_t set" where
  "utf8_states = {0, 24, 36, 48, 60, 72, 84, 96}"

text \<open>
  The bytes \<open>src[i..j)\<close> of the source buffer, and the three bytes that the REJECT branch of
  \<^verbatim>\<open>xtf8_encode\<close> stores for one byte.
\<close>

definition pending :: "uint8_t list \<Rightarrow> nat \<Rightarrow> nat \<Rightarrow> uint8_t list" where
  "pending src i j = map ((!) src) [i..<j]"

definition pua_3 :: "uint8_t \<Rightarrow> uint8_t list" where
  "pua_3 b = utf8_3 (0xEF80 OR (ucast b AND 0x7F))"

text \<open>
  The codepoint component of one step, and the test for the reserved range
  U+EF80..U+EFFF that both loops make.
\<close>

definition utf8_codep :: "uint32_t \<Rightarrow> uint32_t \<Rightarrow> uint8_t \<Rightarrow> uint32_t" where
  "utf8_codep st cp b = snd (utf8_decode st cp (ucast b))"

definition is_pua :: "uint32_t \<Rightarrow> bool" where
  "is_pua c \<longleftrightarrow> XTF8_PUA_START \<le> c \<and> c \<le> XTF8_PUA_END"

text \<open>The offset at which the REJECT branch stops converting: \<open>s\<close>, or \<open>s - 1\<close> after the rewind.\<close>

definition rewound :: "xtf8_state \<Rightarrow> nat" where
  "rewound st = (if s_prev st \<noteq> UTF8_ACCEPT then s st - 1 else s st)"

text \<open>
  The invariants of the loop of \<^verbatim>\<open>xtf8_encode\<close>, at the loop test. For the destination:
  a sizing pass stores nothing, and a writing pass has stored \<open>sz\<close> bytes and stands
  \<open>sz\<close> bytes after \<^verbatim>\<open>dst\<close>. For the source: the pending region \<open>src[pos..s)\<close> is what
  took the scanner from \<^verbatim>\<open>UTF8_ACCEPT\<close> to its current state, it is empty in
  \<^verbatim>\<open>UTF8_ACCEPT\<close>, and it holds no ASCII byte; the bytes stored so far are valid UTF-8.
\<close>

definition xtf8_dst_inv :: "nat \<Rightarrow> xtf8_state \<Rightarrow> bool" where
  "xtf8_dst_inv dst st \<longleftrightarrow>
     (if dst = NULL then d st = NULL \<and> mem st = []
      else d st = dst + sz st \<and> length (mem st) = sz st)"

definition xtf8_encode_inv :: "uint8_t list \<Rightarrow> xtf8_state \<Rightarrow> bool" where
  "xtf8_encode_inv src st \<longleftrightarrow>
     pos st \<le> s st \<and> s st \<le> length src \<and>
     s_prev st = s_cur st \<and>
     s_cur st \<in> utf8_states \<and>
     utf8_scan UTF8_ACCEPT (pending src (pos st) (s st)) = s_cur st \<and>
     (s_cur st = UTF8_ACCEPT \<longrightarrow> pos st = s st) \<and>
     (\<forall>b \<in> set (pending src (pos st) (s st)). 0x80 \<le> b) \<and>
     utf8_scan UTF8_ACCEPT (mem st) = UTF8_ACCEPT"

text \<open>
  The invariant of the loop of \<^verbatim>\<open>xtf8_decode\<close>: the offsets are in order, the scanner is in
  a state of the table, and outside \<^verbatim>\<open>UTF8_ACCEPT\<close> a byte is pending, so that the rewind
  \<^verbatim>\<open>s--\<close> stays inside the buffer.
\<close>

definition xtf8_decode_inv :: "uint8_t list \<Rightarrow> xtf8_state \<Rightarrow> bool" where
  "xtf8_decode_inv src st \<longleftrightarrow>
     pos st \<le> s st \<and> s st \<le> length src \<and>
     s_prev st = s_cur st \<and>
     s_cur st \<in> utf8_states \<and>
     (s_cur st \<noteq> UTF8_ACCEPT \<longrightarrow> pos st < s st)"

text \<open>
  Two states of the same loop that take the same branches from here on: they agree on
  everything but the destination and the bytes stored, and on the codepoint only while a
  sequence is under way (a step taken in \<^verbatim>\<open>UTF8_ACCEPT\<close> overwrites it). This is how the
  state of a sizing pass and the state of a writing pass are related.
\<close>

definition xtf8_same_flow :: "xtf8_state \<Rightarrow> xtf8_state \<Rightarrow> bool" where
  "xtf8_same_flow a b \<longleftrightarrow>
     s a = s b \<and> pos a = pos b \<and> sz a = sz b \<and> s_prev a = s_prev b \<and> s_cur a = s_cur b \<and>
     (s_cur a \<noteq> UTF8_ACCEPT \<longrightarrow> codepoint a = codepoint b)"

text \<open>
  The buffer \<open>src_a\<close> lies inside \<open>src_b\<close> from offset \<open>k\<close> on; and a state \<open>b\<close> of the
  loop on \<open>src_b\<close> is the state \<open>a\<close> of the loop on \<open>src_a\<close> moved by \<open>k\<close> bytes, with the
  bytes \<open>M\<close> (\<open>n\<close> of them counted) stored before those of \<open>a\<close>.
\<close>

definition xtf8_embedded :: "nat \<Rightarrow> uint8_t list \<Rightarrow> uint8_t list \<Rightarrow> bool" where
  "xtf8_embedded k src_a src_b \<longleftrightarrow>
     k + length src_a \<le> length src_b \<and> (\<forall>i < length src_a. src_b ! (i + k) = src_a ! i)"

definition xtf8_shifted ::
  "nat \<Rightarrow> uint8_t list \<Rightarrow> nat \<Rightarrow> xtf8_state \<Rightarrow> xtf8_state \<Rightarrow> bool" where
  "xtf8_shifted k M n a b \<longleftrightarrow>
     s b = s a + k \<and> pos b = pos a + k \<and> s_prev b = s_prev a \<and> s_cur b = s_cur a \<and>
     (s_cur a \<noteq> UTF8_ACCEPT \<longrightarrow> codepoint b = codepoint a) \<and>
     sz b = sz a + n \<and> mem b = M @ mem a \<and>
     (d b \<noteq> NULL) = (d a \<noteq> NULL) \<and> (d a \<noteq> NULL \<longrightarrow> d b = d a + n)"

text \<open>
  The scanner, started in state \<open>st\<close>, wants more bytes after every byte of \<open>bs\<close>: it
  reaches neither \<^verbatim>\<open>UTF8_ACCEPT\<close> nor \<^verbatim>\<open>UTF8_REJECT\<close>.
\<close>

fun utf8_needs_more :: "uint32_t \<Rightarrow> uint8_t list \<Rightarrow> bool" where
  "utf8_needs_more st [] = True"
| "utf8_needs_more st (b # bs) =
     (utf8_next st b \<noteq> UTF8_ACCEPT \<and> utf8_next st b \<noteq> UTF8_REJECT \<and>
      utf8_needs_more (utf8_next st b) bs)"

section \<open>Unfolding rules for concrete buffers\<close>

lemmas scanner_eval =
  utf8_decode_def utf8d_def UTF8_ACCEPT_def UTF8_REJECT_def Let_def

lemmas xtf8_eval =
  xtf8_encode_def xtf8_encode_loop.simps xtf8_encode_body_def
  xtf8_decode_def xtf8_decode_loop.simps xtf8_decode_body_def pua_byte_def
  xtf8_init_def pua_loop.simps copy_loop.simps next_iter_def put_utf8_3_def store_def
  is_utf8_def is_utf8_step_def NULL_def XTF8_PUA_START_def XTF8_PUA_END_def
  XTF8_ERR_ABORT_def XTF8_ERR_REPLACE_def utf8_3_def scanner_eval

lemmas json_eval =
  json_escape_def json_escape_size_loop.simps json_escape_write_loop.simps
  json_unescape_def json_unescape_loop.simps json_xdigits.simps json_put_def
  store_def NULL_def Let_def

section \<open>The scanner table\<close>

lemma utf8_decode_fst: "fst (utf8_decode st cp (ucast b)) = utf8_next st b"
  by (simp add: utf8_decode_def utf8_next_def utf8_trans_def utf8_class_def Let_def)

lemma replicate_numeral: "replicate (numeral k) x = x # replicate (pred_numeral k) x"
  by (simp add: numeral_eq_Suc)

lemma utf8d_length: "length utf8d = 364"
  by (simp add: utf8d_def)

lemma utf8d_low: "take 128 utf8d = replicate 128 0"
  by (simp add: utf8d_def replicate_numeral)

lemma utf8d_cont:
  "take 64 (drop 128 utf8d) = replicate 16 1 @ replicate 16 9 @ replicate 32 7"
  by (simp add: utf8d_def replicate_numeral)

lemma utf8d_classes: "list_all (\<lambda>x. x \<in> {0, 1, 2, 3, 4, 5, 6, 7, 8, 9, 10, 11}) (take 256 utf8d)"
  by (simp add: utf8d_def)

lemma utf8d_transitions:
  "drop 256 utf8d =
     [0, 12, 24, 36, 60, 96, 84, 12, 12, 12, 48, 72,
     12, 12, 12, 12, 12, 12, 12, 12, 12, 12, 12, 12,
     12, 0, 12, 12, 12, 12, 12, 0, 12, 0, 12, 12,
     12, 24, 12, 12, 12, 12, 12, 24, 12, 24, 12, 12,
     12, 12, 12, 12, 12, 12, 12, 24, 12, 12, 12, 12,
     12, 24, 12, 12, 12, 12, 12, 12, 12, 24, 12, 12,
     12, 12, 12, 12, 12, 12, 12, 36, 12, 36, 12, 12,
     12, 36, 12, 12, 12, 12, 12, 36, 12, 36, 12, 12,
     12, 36, 12, 12, 12, 12, 12, 12, 12, 12, 12, 12]"
  by (simp add: utf8d_def)

lemma unat_byte: "unat (ucast (b :: uint8_t) :: uint32_t) = unat b" "unat b < 256"
proof -
  show n: "unat b < 256"
    using unsigned_less [of b, where 'a = nat] by simp
  then show "unat (ucast b :: uint32_t) = unat b"
    by (simp add: unsigned_ucast_eq take_bit_nat_eq_self_iff)
qed

lemma utf8_class_ascii: "b < 0x80 \<Longrightarrow> utf8_class b = 0"
proof -
  assume "b < 0x80"
  then have n: "unat b < 128" by (simp add: word_less_nat_alt)
  have "utf8d ! unat b = take 128 utf8d ! unat b"
    using n by simp
  also have "\<dots> = 0"
    unfolding utf8d_low using n by simp
  finally show ?thesis
    by (simp add: utf8_class_def unat_byte)
qed

lemma utf8_class_cont:
  assumes "0x80 \<le> b" "b \<le> 0xBF"
  shows "utf8_class b \<in> {1, 7, 9}"
proof -
  from assms have n: "128 \<le> unat b" "unat b < 192" by (simp_all add: word_le_nat_alt)
  have "utf8d ! unat b = drop 128 utf8d ! (unat b - 128)"
    using n by (simp add: utf8d_length)
  also have "\<dots> = take 64 (drop 128 utf8d) ! (unat b - 128)"
    using n by simp
  also have "\<dots> \<in> {1, 7, 9}"
    unfolding utf8d_cont using n by (auto simp: nth_append)
  finally show ?thesis
    by (auto simp: utf8_class_def unat_byte)
qed

lemma utf8_class_cases:
  "utf8_class b \<in> {0, 1, 2, 3, 4, 5, 6, 7, 8, 9, 10, 11}"
proof -
  have "utf8d ! unat b \<in> set (take 256 utf8d)"
    using nth_mem [of "unat b" "take 256 utf8d"] by (simp add: utf8d_length unat_byte)
  then have "utf8d ! unat b \<in> {0, 1, 2, 3, 4, 5, 6, 7, 8, 9, 10, 11}"
    using utf8d_classes by (simp only: list_all_iff)
  then show ?thesis
    by (auto simp: utf8_class_def unat_byte)
qed

lemma utf8_trans_table:
  assumes "unat st + unat cl < 108"
  shows "utf8_trans st cl = ucast (drop 256 utf8d ! (unat st + unat cl))"
proof -
  have "unat (256 + st + cl) = (256 + unat st + unat cl) mod 2 ^ 32"
    by (simp add: unat_word_ariths mod_simps)
  also have "\<dots> = 256 + (unat st + unat cl)"
    using assms by simp
  finally show ?thesis
    by (simp add: utf8_trans_def utf8d_length)
qed

lemma utf8_next_closed:
  assumes "st \<in> utf8_states"
  shows "utf8_next st b \<in> insert 12 utf8_states"
  using assms utf8_class_cases [of b]
  unfolding utf8_next_def utf8_states_def
  by (auto simp: utf8_trans_table utf8d_transitions)

lemma utf8_next_ascii:
  assumes "st \<in> utf8_states" "b < 0x80"
  shows "utf8_next st b = (if st = 0 then 0 else 12)"
  using assms(1) unfolding utf8_next_def utf8_states_def utf8_class_ascii [OF assms(2)]
  by (auto simp: utf8_trans_table utf8d_transitions)

lemma utf8_next_reject: "utf8_next 12 b = 12"
  using utf8_class_cases [of b] unfolding utf8_next_def
  by (auto simp: utf8_trans_table utf8d_transitions)

lemma utf8_next_cont:
  assumes "0x80 \<le> b" "b \<le> 0xBF"
  shows "utf8_next 24 b = 0" "utf8_next 36 b = 24"
  using utf8_class_cont [OF assms] unfolding utf8_next_def
  by (auto simp: utf8_trans_table utf8d_transitions)

lemma utf8_class_lead3: "utf8_class 0xEE = 3" "utf8_class 0xEF = 3"
  by (simp_all add: utf8_class_def utf8d_def)

lemma utf8_next_lead3:
  "utf8_next 0 0xEE = 36" "utf8_next 0 0xEF = 36"
  "st \<in> utf8_states \<Longrightarrow> st \<noteq> 0 \<Longrightarrow> utf8_next st 0xEE = 12"
  unfolding utf8_next_def utf8_class_lead3 utf8_states_def
  by (auto simp: utf8_trans_table utf8d_transitions)

lemma utf8_next_lead:
  assumes "st \<in> utf8_states" and "st \<noteq> UTF8_ACCEPT"
    and "utf8_next UTF8_ACCEPT b \<noteq> UTF8_ACCEPT" and "utf8_next UTF8_ACCEPT b \<noteq> UTF8_REJECT"
  shows "utf8_next st b = UTF8_REJECT"
  using assms utf8_class_cases [of b]
  unfolding utf8_next_def utf8_states_def UTF8_ACCEPT_def UTF8_REJECT_def
  by (auto simp: utf8_trans_table utf8d_transitions)

lemma utf8_scan_simps [simp]:
  "utf8_scan st [] = st"
  "utf8_scan st (b # bs) = utf8_scan (utf8_next st b) bs"
  "utf8_scan st (xs @ ys) = utf8_scan (utf8_scan st xs) ys"
  by (simp_all add: utf8_scan_def)

lemma utf8_needs_more_append:
  "utf8_needs_more st (xs @ [b]) =
     (utf8_needs_more st xs \<and> utf8_next (utf8_scan st xs) b \<noteq> UTF8_ACCEPT \<and>
      utf8_next (utf8_scan st xs) b \<noteq> UTF8_REJECT)"
  by (induction xs arbitrary: st) auto

lemma is_utf8_scan: "is_utf8 data len = (utf8_scan UTF8_ACCEPT (take len data) = UTF8_ACCEPT)"
proof -
  have "fst (foldl is_utf8_step sc bs) = utf8_scan (fst sc) bs" for sc bs
    by (induction bs arbitrary: sc) (simp_all add: is_utf8_step_def utf8_decode_fst)
  then show ?thesis
    by (simp add: is_utf8_def)
qed

lemma utf8_scan_reject: "utf8_scan 12 bs = 12"
  by (induction bs) (simp_all add: utf8_next_reject)

lemma pending_simps:
  "pending src i i = []"
  "i \<le> j \<Longrightarrow> pending src i (Suc j) = pending src i j @ [src ! j]"
  "i < j \<Longrightarrow> pending src i j = src ! i # pending src (Suc i) j"
  "pending src i (Suc i) = [src ! i]"
  by (simp_all add: pending_def upt_conv_Cons)

lemma pending_drop: "i \<le> length src \<Longrightarrow> pending src i (length src) = drop i src"
  by (rule nth_equalityI) (simp_all add: pending_def)

lemma pending_take: "j \<le> k \<Longrightarrow> pending (take k src) i j = pending src i j"
  by (simp add: pending_def)

lemma copy_loop_eq:
  "copy_loop src st =
     st\<lparr>pos := max (pos st) (Suc (s st)),
        d := d st + (Suc (s st) - pos st),
        mem := mem st @ pending src (pos st) (Suc (s st))\<rparr>"
proof (induction src st rule: copy_loop.induct)
  case (1 src st)
  show ?case
  proof (cases "pos st \<le> s st")
    case True
    then have "pos st < Suc (s st)" by simp
    note p = pending_simps(3) [OF this]
    from True 1 show ?thesis
      by (subst copy_loop.simps) (simp add: store_def p max_def)
  next
    case False
    then show ?thesis
      by (subst copy_loop.simps) (simp add: pending_def max_def)
  qed
qed

lemma put_utf8_3_eq:
  "put_utf8_3 st = st\<lparr>d := d st + 3, mem := mem st @ utf8_3 (codepoint st)\<rparr>"
  by (simp add: put_utf8_3_def store_def utf8_3_def)

lemma pua_loop_eq:
  assumes "\<forall>i. pos st \<le> i \<and> i \<le> s st \<longrightarrow> 0x80 \<le> src ! i"
  shows "pua_loop src st =
     (None, st\<lparr>pos := max (pos st) (Suc (s st)),
               sz := sz st + 3 * (Suc (s st) - pos st),
               d := (if d st \<noteq> NULL then d st + 3 * (Suc (s st) - pos st) else d st),
               mem := (if d st \<noteq> NULL
                       then mem st @ concat (map pua_3 (pending src (pos st) (Suc (s st))))
                       else mem st),
               codepoint := (if d st \<noteq> NULL \<and> pos st \<le> s st
                             then 0xEF80 OR (ucast (src ! s st) AND 0x7F)
                             else codepoint st)\<rparr>)"
  using assms
proof (induction src st rule: pua_loop.induct)
  case (1 src st)
  show ?case
  proof (cases "pos st \<le> s st")
    case True
    then have lt: "pos st < Suc (s st)" by simp
    note p = pending_simps(3) [OF lt]
    from True 1(2) have ge: "0x80 \<le> src ! pos st" by blast
    let ?st1 = "st\<lparr>sz := sz st + 3\<rparr>"
    let ?st2 = "(if d ?st1 \<noteq> NULL
                 then put_utf8_3 (?st1\<lparr>codepoint := 0xEF80 OR (ucast (src ! pos ?st1) AND 0x7F)\<rparr>)
                 else ?st1)"
    have ih: "pua_loop src (?st2\<lparr>pos := pos ?st2 + 1\<rparr>) = (None, (?st2\<lparr>pos := pos ?st2 + 1\<rparr>)
               \<lparr>pos := max (pos (?st2\<lparr>pos := pos ?st2 + 1\<rparr>)) (Suc (s (?st2\<lparr>pos := pos ?st2 + 1\<rparr>))),
                sz := sz (?st2\<lparr>pos := pos ?st2 + 1\<rparr>) + 3 * (Suc (s (?st2\<lparr>pos := pos ?st2 + 1\<rparr>)) - pos (?st2\<lparr>pos := pos ?st2 + 1\<rparr>)),
                d := (if d (?st2\<lparr>pos := pos ?st2 + 1\<rparr>) \<noteq> NULL then d (?st2\<lparr>pos := pos ?st2 + 1\<rparr>) + 3 * (Suc (s (?st2\<lparr>pos := pos ?st2 + 1\<rparr>)) - pos (?st2\<lparr>pos := pos ?st2 + 1\<rparr>)) else d (?st2\<lparr>pos := pos ?st2 + 1\<rparr>)),
                mem := (if d (?st2\<lparr>pos := pos ?st2 + 1\<rparr>) \<noteq> NULL
                       then mem (?st2\<lparr>pos := pos ?st2 + 1\<rparr>) @ concat (map pua_3 (pending src (pos (?st2\<lparr>pos := pos ?st2 + 1\<rparr>)) (Suc (s (?st2\<lparr>pos := pos ?st2 + 1\<rparr>)))))
                       else mem (?st2\<lparr>pos := pos ?st2 + 1\<rparr>)),
                codepoint := (if d (?st2\<lparr>pos := pos ?st2 + 1\<rparr>) \<noteq> NULL \<and> pos (?st2\<lparr>pos := pos ?st2 + 1\<rparr>) \<le> s (?st2\<lparr>pos := pos ?st2 + 1\<rparr>)
                             then 0xEF80 OR (ucast (src ! s (?st2\<lparr>pos := pos ?st2 + 1\<rparr>)) AND 0x7F)
                             else codepoint (?st2\<lparr>pos := pos ?st2 + 1\<rparr>))\<rparr>)"
      apply (rule 1(1) [OF True _ refl refl])
      using ge 1(2) by (auto simp: put_utf8_3_eq)
    show ?thesis
      apply (subst pua_loop.simps)
      apply (simp only: True ge if_True not_not Let_def ih)
      using True
      apply (cases "pos st = s st")
      apply (auto simp: put_utf8_3_eq p pua_3_def max_def NULL_def pending_simps(1,4))
      done
  next
    case False
    then show ?thesis
      by (subst pua_loop.simps) (simp add: pending_def max_def)
  qed
qed

section \<open>The loop of the encoder\<close>

lemma utf8_decode_eq: "utf8_decode st cp (ucast b) = (utf8_next st b, utf8_codep st cp b)"
  by (simp add: prod_eq_iff utf8_codep_def utf8_decode_fst)

lemma xtf8_encode_body_abort:
  assumes "utf8_next (s_cur st) (src ! s st) = UTF8_ACCEPT"
    and "is_pua (utf8_codep (s_cur st) (codepoint st) (src ! s st))"
    and "error = XTF8_ERR_ABORT"
  shows "xtf8_encode_body src error st =
           (Some XTF8_ABORTED,
            st\<lparr>s_cur := UTF8_ACCEPT,
               codepoint := utf8_codep (s_cur st) (codepoint st) (src ! s st)\<rparr>)"
  using assms by (simp add: xtf8_encode_body_def utf8_decode_eq is_pua_def [symmetric] Let_def)

lemma xtf8_encode_body_replace:
  assumes "utf8_next (s_cur st) (src ! s st) = UTF8_ACCEPT"
    and "is_pua (utf8_codep (s_cur st) (codepoint st) (src ! s st))"
    and "error \<noteq> XTF8_ERR_ABORT"
  shows "xtf8_encode_body src error st =
           (None,
            st\<lparr>s_cur := UTF8_ACCEPT, s_prev := UTF8_ACCEPT, codepoint := 0xFFFD,
               sz := sz st + 3,
               d := (if d st \<noteq> NULL then d st + 3 else d st),
               mem := (if d st \<noteq> NULL then mem st @ utf8_3 0xFFFD else mem st),
               pos := s st + 1, s := s st + 1\<rparr>)"
  using assms
  by (simp add: xtf8_encode_body_def utf8_decode_eq is_pua_def [symmetric] Let_def put_utf8_3_eq
                next_iter_def)

lemma xtf8_encode_body_copy:
  assumes "utf8_next (s_cur st) (src ! s st) = UTF8_ACCEPT"
    and "\<not> is_pua (utf8_codep (s_cur st) (codepoint st) (src ! s st))"
  shows "xtf8_encode_body src error st =
           (None,
            st\<lparr>s_cur := UTF8_ACCEPT, s_prev := UTF8_ACCEPT,
               codepoint := utf8_codep (s_cur st) (codepoint st) (src ! s st),
               sz := sz st + (1 + s st - pos st),
               d := (if d st \<noteq> NULL then d st + (Suc (s st) - pos st) else d st),
               mem := (if d st \<noteq> NULL then mem st @ pending src (pos st) (Suc (s st))
                       else mem st),
               pos := s st + 1, s := s st + 1\<rparr>)"
  using assms
  by (simp add: xtf8_encode_body_def utf8_decode_eq is_pua_def [symmetric] Let_def copy_loop_eq
                next_iter_def)

lemma xtf8_encode_body_more:
  assumes "utf8_next (s_cur st) (src ! s st) \<noteq> UTF8_ACCEPT"
    and "utf8_next (s_cur st) (src ! s st) \<noteq> UTF8_REJECT"
  shows "xtf8_encode_body src error st =
           (None,
            st\<lparr>s_cur := utf8_next (s_cur st) (src ! s st),
               s_prev := utf8_next (s_cur st) (src ! s st),
               codepoint := utf8_codep (s_cur st) (codepoint st) (src ! s st),
               s := s st + 1\<rparr>)"
  using assms
  by (simp add: xtf8_encode_body_def utf8_decode_eq Let_def next_iter_def)

lemma xtf8_encode_body_reject:
  assumes "utf8_next (s_cur st) (src ! s st) = UTF8_REJECT"
    and "\<forall>i. pos st \<le> i \<and> i \<le> rewound st \<longrightarrow> 0x80 \<le> src ! i"
  shows "xtf8_encode_body src error st =
           (None,
            st\<lparr>s_cur := UTF8_ACCEPT, s_prev := UTF8_ACCEPT,
               codepoint := (if d st \<noteq> NULL \<and> pos st \<le> rewound st
                             then 0xEF80 OR (ucast (src ! rewound st) AND 0x7F)
                             else utf8_codep (s_cur st) (codepoint st) (src ! s st)),
               sz := sz st + 3 * (Suc (rewound st) - pos st),
               d := (if d st \<noteq> NULL then d st + 3 * (Suc (rewound st) - pos st) else d st),
               mem := (if d st \<noteq> NULL
                       then mem st @ concat (map pua_3 (pending src (pos st) (Suc (rewound st))))
                       else mem st),
               pos := max (pos st) (Suc (rewound st)), s := rewound st + 1\<rparr>)"
proof -
  let ?c = "utf8_codep (s_cur st) (codepoint st) (src ! s st)"
  let ?st2 = "st\<lparr>s_cur := UTF8_ACCEPT, codepoint := ?c, s := rewound st\<rparr>"
  have b: "\<forall>i. pos ?st2 \<le> i \<and> i \<le> s ?st2 \<longrightarrow> 0x80 \<le> src ! i"
    using assms(2) by simp
  have na: "UTF8_REJECT \<noteq> UTF8_ACCEPT"
    by (simp add: UTF8_ACCEPT_def UTF8_REJECT_def)
  have "xtf8_encode_body src error st =
          (case pua_loop src ?st2 of (Some f, st3) \<Rightarrow> (Some f, st3)
           | (None, st3) \<Rightarrow> (None, next_iter st3))"
    using assms(1) na
    by (auto simp add: xtf8_encode_body_def utf8_decode_eq Let_def rewound_def
             intro!: arg_cong [where f = "pua_loop src"] arg_cong2 [where f = "case_prod"])
  then show ?thesis
    by (simp add: pua_loop_eq [OF b] next_iter_def)
qed

lemma all_less_numeral:
  "(\<forall>i<numeral k. P i) = (P (pred_numeral k) \<and> (\<forall>i<pred_numeral k. P i))"
  by (simp add: numeral_eq_Suc All_less_Suc)

lemma all_uint8: "(\<forall>b::uint8_t. P b) = (\<forall>n<256. P (of_nat n))"
proof
  assume r: "\<forall>n<256. P (of_nat n)"
  show "\<forall>b. P b"
  proof
    fix b :: uint8_t
    from r unat_byte(2) [of b] have "P (of_nat (unat b))" by blast
    then show "P b" by simp
  qed
qed simp

lemma pua_3_shape:
  "\<forall>b. \<exists>x2 x3. pua_3 b = [0xEE, x2, x3] \<and> 0x80 \<le> x2 \<and> x2 \<le> 0xBF \<and> 0x80 \<le> x3 \<and> x3 \<le> 0xBF"
  unfolding all_uint8
  by (simp add: all_less_numeral pua_3_def utf8_3_def)

lemma utf8_scan_pua_3: "utf8_scan UTF8_ACCEPT (pua_3 b) = UTF8_ACCEPT"
proof -
  from pua_3_shape obtain x2 x3 where
    "pua_3 b = [0xEE, x2, x3]" "0x80 \<le> x2" "x2 \<le> 0xBF" "0x80 \<le> x3" "x3 \<le> 0xBF"
    by blast
  then show ?thesis
    by (simp add: UTF8_ACCEPT_def utf8_next_lead3 utf8_next_cont)
qed

lemma utf8_scan_pua_3s: "utf8_scan UTF8_ACCEPT (concat (map pua_3 bs)) = UTF8_ACCEPT"
  by (induction bs) (simp_all add: utf8_scan_pua_3)

lemma utf8_3_fffd: "utf8_3 0xFFFD = [0xEF, 0xBF, 0xBD]"
  by (simp add: utf8_3_def)

lemma utf8_scan_fffd: "utf8_scan UTF8_ACCEPT [0xEF, 0xBF, 0xBD] = UTF8_ACCEPT"
  by (simp add: UTF8_ACCEPT_def utf8_next_lead3 utf8_next_cont)

lemma utf8_states_simps [simp]:
  "UTF8_ACCEPT \<in> utf8_states" "UTF8_REJECT \<notin> utf8_states" "UTF8_REJECT \<noteq> UTF8_ACCEPT"
  "UTF8_ACCEPT \<noteq> UTF8_REJECT"
  by (simp_all add: utf8_states_def UTF8_ACCEPT_def UTF8_REJECT_def)

lemma length_pending: "length (pending src i j) = j - i"
  by (simp add: pending_def)

lemma ball_pending:
  "(\<forall>b \<in> set (pending src i j). P b) = (\<forall>k. i \<le> k \<and> k < j \<longrightarrow> P (src ! k))"
  by (auto simp: pending_def)

lemma xtf8_dst_inv_d: "xtf8_dst_inv dst st \<Longrightarrow> (d st \<noteq> NULL) = (dst \<noteq> NULL)"
  by (auto simp: xtf8_dst_inv_def NULL_def split: if_splits)

lemma xtf8_encode_inv_replace:
  assumes inv: "xtf8_encode_inv src st" and dst: "xtf8_dst_inv dst st"
    and lt: "s st < length src"
  defines "st' \<equiv> st\<lparr>s_cur := UTF8_ACCEPT, s_prev := UTF8_ACCEPT, codepoint := 0xFFFD,
               sz := sz st + 3,
               d := (if d st \<noteq> NULL then d st + 3 else d st),
               mem := (if d st \<noteq> NULL then mem st @ utf8_3 0xFFFD else mem st),
               pos := s st + 1, s := s st + 1\<rparr>"
  shows "xtf8_encode_inv src st' \<and> xtf8_dst_inv dst st'"
proof -
  have "xtf8_dst_inv dst st'"
    using dst xtf8_dst_inv_d [OF dst]
    by (simp add: xtf8_dst_inv_def st'_def utf8_3_fffd)
  moreover have "xtf8_encode_inv src st'"
    using inv lt utf8_scan_fffd
    by (simp add: xtf8_encode_inv_def st'_def utf8_3_fffd pending_simps(1))
  ultimately show ?thesis by simp
qed

lemma xtf8_encode_inv_copy:
  fixes c :: uint32_t
  assumes inv: "xtf8_encode_inv src st" and dst: "xtf8_dst_inv dst st"
    and lt: "s st < length src"
    and acc: "utf8_next (s_cur st) (src ! s st) = UTF8_ACCEPT"
  defines "st' \<equiv> st\<lparr>s_cur := UTF8_ACCEPT, s_prev := UTF8_ACCEPT,
               codepoint := c,
               sz := sz st + (1 + s st - pos st),
               d := (if d st \<noteq> NULL then d st + (Suc (s st) - pos st) else d st),
               mem := (if d st \<noteq> NULL then mem st @ pending src (pos st) (Suc (s st))
                       else mem st),
               pos := s st + 1, s := s st + 1\<rparr>"
  shows "xtf8_encode_inv src st' \<and> xtf8_dst_inv dst st'"
proof -
  from inv have i: "pos st \<le> s st"
    "utf8_scan UTF8_ACCEPT (pending src (pos st) (s st)) = s_cur st"
    "utf8_scan UTF8_ACCEPT (mem st) = UTF8_ACCEPT"
    by (simp_all add: xtf8_encode_inv_def)
  have scan: "utf8_scan UTF8_ACCEPT (pending src (pos st) (Suc (s st))) = UTF8_ACCEPT"
    using i(1,2) acc by (simp add: pending_simps(2))
  note len = length_pending [of src "pos st" "Suc (s st)"]
  have "xtf8_dst_inv dst st'"
    using dst xtf8_dst_inv_d [OF dst] len
    by (simp add: xtf8_dst_inv_def st'_def)
  moreover have "xtf8_encode_inv src st'"
    using lt i(3) scan
    by (simp add: xtf8_encode_inv_def st'_def pending_simps(1))
  ultimately show ?thesis by simp
qed

lemma xtf8_encode_inv_more:
  fixes c :: uint32_t
  assumes inv: "xtf8_encode_inv src st" and dst: "xtf8_dst_inv dst st"
    and lt: "s st < length src"
    and more: "utf8_next (s_cur st) (src ! s st) \<noteq> UTF8_ACCEPT"
              "utf8_next (s_cur st) (src ! s st) \<noteq> UTF8_REJECT"
  defines "st' \<equiv> st\<lparr>s_cur := utf8_next (s_cur st) (src ! s st),
               s_prev := utf8_next (s_cur st) (src ! s st),
               codepoint := c,
               s := s st + 1\<rparr>"
  shows "xtf8_encode_inv src st' \<and> xtf8_dst_inv dst st'"
proof -
  let ?b = "src ! s st"
  let ?n = "utf8_next (s_cur st) ?b"
  from inv have i: "pos st \<le> s st" "s_cur st \<in> utf8_states"
    "utf8_scan UTF8_ACCEPT (pending src (pos st) (s st)) = s_cur st"
    "\<forall>b \<in> set (pending src (pos st) (s st)). 0x80 \<le> b"
    "utf8_scan UTF8_ACCEPT (mem st) = UTF8_ACCEPT"
    by (simp_all add: xtf8_encode_inv_def)
  have scan: "utf8_scan UTF8_ACCEPT (pending src (pos st) (Suc (s st))) = ?n"
    using i(1,3) by (simp add: pending_simps(2))
  have ge: "0x80 \<le> ?b"
  proof (rule ccontr)
    assume "\<not> 0x80 \<le> ?b"
    then have "?b < 0x80" by simp
    from utf8_next_ascii [OF i(2) this] more show False
      by (auto simp: UTF8_ACCEPT_def UTF8_REJECT_def split: if_splits)
  qed
  have st: "?n \<in> utf8_states"
    using utf8_next_closed [OF i(2), of ?b] more(2) by (auto simp: UTF8_REJECT_def)
  have bytes: "\<forall>b \<in> set (pending src (pos st) (Suc (s st))). 0x80 \<le> b"
    using i(1,4) ge by (simp add: pending_simps(2))
  have "xtf8_dst_inv dst st'"
    using dst by (simp add: xtf8_dst_inv_def st'_def)
  moreover have "xtf8_encode_inv src st'"
    using lt i(1,5) scan st bytes more(1)
    by (simp add: xtf8_encode_inv_def st'_def)
  ultimately show ?thesis by simp
qed

lemma xtf8_encode_inv_reject:
  fixes c :: uint32_t
  assumes inv: "xtf8_encode_inv src st" and dst: "xtf8_dst_inv dst st"
    and lt: "s st < length src"
    and rej: "utf8_next (s_cur st) (src ! s st) = UTF8_REJECT"
  defines "st' \<equiv> st\<lparr>s_cur := UTF8_ACCEPT, s_prev := UTF8_ACCEPT,
               codepoint := c,
               sz := sz st + 3 * (Suc (rewound st) - pos st),
               d := (if d st \<noteq> NULL then d st + 3 * (Suc (rewound st) - pos st) else d st),
               mem := (if d st \<noteq> NULL
                       then mem st @ concat (map pua_3 (pending src (pos st) (Suc (rewound st))))
                       else mem st),
               pos := max (pos st) (Suc (rewound st)), s := rewound st + 1\<rparr>"
  shows "(\<forall>i. pos st \<le> i \<and> i \<le> rewound st \<longrightarrow> 0x80 \<le> src ! i) \<and>
         xtf8_encode_inv src st' \<and> xtf8_dst_inv dst st'"
proof -
  let ?b = "src ! s st"
  from inv have i: "pos st \<le> s st" "s_prev st = s_cur st" "s_cur st \<in> utf8_states"
    "utf8_scan UTF8_ACCEPT (pending src (pos st) (s st)) = s_cur st"
    "s_cur st = UTF8_ACCEPT \<longrightarrow> pos st = s st"
    "\<forall>b \<in> set (pending src (pos st) (s st)). 0x80 \<le> b"
    "utf8_scan UTF8_ACCEPT (mem st) = UTF8_ACCEPT"
    by (simp_all add: xtf8_encode_inv_def)
  have rw: "pos st \<le> Suc (rewound st)" "rewound st < length src"
  proof -
    show "rewound st < length src"
      using lt by (auto simp: rewound_def)
    show "pos st \<le> Suc (rewound st)"
      using i(1) by (auto simp: rewound_def)
  qed
  have bytes: "\<forall>b \<in> set (pending src (pos st) (Suc (rewound st))). 0x80 \<le> b"
  proof (cases "s_prev st = UTF8_ACCEPT")
    case True
    with i(2,5) have ps: "pos st = s st" by simp
    have "\<not> ?b < 0x80"
      using utf8_next_ascii [OF i(3), of ?b] rej True i(2)
      by (auto simp: UTF8_ACCEPT_def UTF8_REJECT_def)
    then have "0x80 \<le> ?b" by simp
    with True ps show ?thesis by (simp add: rewound_def pending_simps(4))
  next
    case False
    with i(2,4) have "pos st \<noteq> s st"
      by (auto simp: pending_simps(1))
    with i(1) have "Suc (s st - 1) = s st" by simp
    with False i(6) show ?thesis by (simp add: rewound_def)
  qed
  then have b1: "\<forall>i. pos st \<le> i \<and> i \<le> rewound st \<longrightarrow> 0x80 \<le> src ! i"
    by (simp add: ball_pending less_Suc_eq_le)
  note len = length_pending [of src "pos st" "Suc (rewound st)"]
  have cl: "length (concat (map pua_3 bs)) = 3 * length bs" for bs
    by (induction bs) (simp_all add: pua_3_def utf8_3_def)
  have "xtf8_dst_inv dst st'"
    using dst xtf8_dst_inv_d [OF dst] len
    by (simp add: xtf8_dst_inv_def st'_def cl)
  moreover have "xtf8_encode_inv src st'"
    using rw i(7)
    by (simp add: xtf8_encode_inv_def st'_def pending_simps(1) max_def utf8_scan_pua_3s)
  ultimately show ?thesis using b1 by simp
qed

lemma xtf8_encode_body_inv:
  assumes inv: "xtf8_encode_inv src st" and dst: "xtf8_dst_inv dst st"
    and lt: "s st < length src"
  shows "(\<exists>st'. xtf8_encode_body src error st = (None, st') \<and>
                xtf8_encode_inv src st' \<and> xtf8_dst_inv dst st') \<or>
         (error = XTF8_ERR_ABORT \<and>
          (\<exists>st'. xtf8_encode_body src error st = (Some XTF8_ABORTED, st') \<and> mem st' = mem st))"
proof -
  let ?n = "utf8_next (s_cur st) (src ! s st)"
  let ?c = "utf8_codep (s_cur st) (codepoint st) (src ! s st)"
  consider (abort) "?n = UTF8_ACCEPT" "is_pua ?c" "error = XTF8_ERR_ABORT"
    | (replace) "?n = UTF8_ACCEPT" "is_pua ?c" "error \<noteq> XTF8_ERR_ABORT"
    | (copy) "?n = UTF8_ACCEPT" "\<not> is_pua ?c"
    | (reject) "?n = UTF8_REJECT"
    | (more) "?n \<noteq> UTF8_ACCEPT" "?n \<noteq> UTF8_REJECT"
    by blast
  then show ?thesis
  proof cases
    case abort
    then show ?thesis
      using xtf8_encode_body_abort [OF abort] by simp
  next
    case replace
    show ?thesis
      using xtf8_encode_body_replace [OF replace] xtf8_encode_inv_replace [OF inv dst lt] by simp
  next
    case copy
    show ?thesis
      using xtf8_encode_body_copy [OF copy] xtf8_encode_inv_copy [OF inv dst lt copy(1)] by simp
  next
    case reject
    note r = xtf8_encode_inv_reject [OF inv dst lt reject]
    from r have b: "\<forall>i. pos st \<le> i \<and> i \<le> rewound st \<longrightarrow> 0x80 \<le> src ! i"
      by blast
    show ?thesis
      using xtf8_encode_body_reject [OF reject b] r by simp
  next
    case more
    show ?thesis
      using xtf8_encode_body_more [OF more] xtf8_encode_inv_more [OF inv dst lt more] by simp
  qed
qed

lemma xtf8_encode_loop_inv:
  assumes "xtf8_encode_inv src st" and "xtf8_dst_inv dst st"
  shows "(\<exists>st'. xtf8_encode_loop src error st = (None, st') \<and>
                xtf8_encode_inv src st' \<and> xtf8_dst_inv dst st' \<and> s st' = length src) \<or>
         (error = XTF8_ERR_ABORT \<and>
          (\<exists>st'. xtf8_encode_loop src error st = (Some XTF8_ABORTED, st') \<and>
                 (dst = NULL \<longrightarrow> mem st' = [])))"
  using assms
proof (induction src error st rule: xtf8_encode_loop.induct)
  case (1 src error st)
  show ?case
  proof (cases "s st < length src")
    case True
    from xtf8_encode_body_inv [OF "1.prems" True, of error]
    show ?thesis
    proof (elim disjE exE conjE)
      fix st'
      assume b: "xtf8_encode_body src error st = (None, st')"
        and i: "xtf8_encode_inv src st'" "xtf8_dst_inv dst st'"
      have "xtf8_encode_loop src error st = xtf8_encode_loop src error st'"
        using b True by (subst xtf8_encode_loop.simps) simp
      with "1.IH" [OF True b [symmetric] refl i]
      show ?thesis
        by simp
    next
      fix st'
      assume b: "xtf8_encode_body src error st = (Some XTF8_ABORTED, st')"
        and e: "error = XTF8_ERR_ABORT" and m: "mem st' = mem st"
      have "dst = NULL \<longrightarrow> mem st = []"
        using "1.prems"(2) by (simp add: xtf8_dst_inv_def)
      moreover have "xtf8_encode_loop src error st = (Some XTF8_ABORTED, st')"
        using b True by (subst xtf8_encode_loop.simps) simp
      ultimately show ?thesis
        using e m by simp
    qed
  next
    case False
    with "1.prems" have "s st = length src"
      by (simp add: xtf8_encode_inv_def)
    moreover have "xtf8_encode_loop src error st = (None, st)"
      using False by (subst xtf8_encode_loop.simps) simp
    ultimately show ?thesis
      using "1.prems" by simp
  qed
qed

lemma xtf8_init_inv: "xtf8_encode_inv src (xtf8_init dst)" "xtf8_dst_inv dst (xtf8_init dst)"
  by (simp_all add: xtf8_encode_inv_def xtf8_dst_inv_def xtf8_init_def pending_simps(1))

section \<open>The loop of the decoder, and the two passes\<close>

lemma xtf8_encode_result:
  "(\<exists>st'. xtf8_encode_loop src error (xtf8_init dst) = (None, st') \<and>
          xtf8_encode_inv src st' \<and> xtf8_dst_inv dst st' \<and> s st' = length src \<and>
          xtf8_encode dst src error
            = (Inr (if dst = NULL then sz st' else dst + sz st'), mem st')) \<or>
   (error = XTF8_ERR_ABORT \<and>
    (\<exists>st'. xtf8_encode_loop src error (xtf8_init dst) = (Some XTF8_ABORTED, st')) \<and>
    fst (xtf8_encode dst src error) = Inl XTF8_ABORTED \<and>
    (dst = NULL \<longrightarrow> snd (xtf8_encode dst src error) = []))"
  using xtf8_encode_loop_inv [where src = src and st = "xtf8_init dst" and dst = dst
                                and error = error, OF xtf8_init_inv]
proof (elim disjE exE conjE)
  fix st'
  assume l: "xtf8_encode_loop src error (xtf8_init dst) = (None, st')"
    and i: "xtf8_encode_inv src st'" "xtf8_dst_inv dst st'" "s st' = length src"
  from i(1) have v: "utf8_scan UTF8_ACCEPT (mem st') = UTF8_ACCEPT"
    by (simp add: xtf8_encode_inv_def)
  have "xtf8_encode dst src error
          = (Inr (if dst = NULL then sz st' else dst + sz st'), mem st')"
    using i(2) xtf8_dst_inv_d [OF i(2)] v
    by (auto simp: xtf8_encode_def l xtf8_dst_inv_def is_utf8_scan)
  with l i show ?thesis by blast
next
  fix st'
  assume e: "error = XTF8_ERR_ABORT"
    and l: "xtf8_encode_loop src error (xtf8_init dst) = (Some XTF8_ABORTED, st')"
    and m: "dst = NULL \<longrightarrow> mem st' = []"
  have "xtf8_encode dst src error = (Inl XTF8_ABORTED, mem st')"
    by (simp add: xtf8_encode_def l)
  with e m l show ?thesis
    by auto
qed

lemma utf8_scan_never_reject:
  assumes "utf8_scan UTF8_ACCEPT out = UTF8_ACCEPT"
  shows "utf8_scan UTF8_ACCEPT (take k out) \<noteq> UTF8_REJECT"
proof
  assume r: "utf8_scan UTF8_ACCEPT (take k out) = UTF8_REJECT"
  have "utf8_scan UTF8_ACCEPT out = utf8_scan UTF8_ACCEPT (take k out @ drop k out)"
    by simp
  also have "\<dots> = UTF8_REJECT"
    unfolding utf8_scan_simps(3) r by (simp add: UTF8_REJECT_def utf8_scan_reject)
  finally show False using assms by simp
qed

lemma pua_byte_ge: "0x80 \<le> pua_byte c"
proof -
  have "pua_byte c = 0x80 OR (ucast c AND 0x7F)"
    by (simp add: pua_byte_def unsigned_or_eq unsigned_and_eq or.commute)
  then show ?thesis
    by (simp add: le_word_or2)
qed

lemma xtf8_decode_body_pua:
  assumes "utf8_next (s_cur st) (src ! s st) = UTF8_ACCEPT"
    and "is_pua (utf8_codep (s_cur st) (codepoint st) (src ! s st))"
  shows "xtf8_decode_body src error st =
           (None,
            st\<lparr>s_cur := UTF8_ACCEPT, s_prev := UTF8_ACCEPT,
               codepoint := utf8_codep (s_cur st) (codepoint st) (src ! s st),
               sz := sz st + 1,
               d := (if d st \<noteq> NULL then d st + 1 else d st),
               mem := (if d st \<noteq> NULL
                       then mem st @ [pua_byte (utf8_codep (s_cur st) (codepoint st) (src ! s st))]
                       else mem st),
               pos := s st + 1, s := s st + 1\<rparr>)"
  using assms pua_byte_ge
  by (simp add: xtf8_decode_body_def utf8_decode_eq is_pua_def [symmetric] Let_def store_def
                next_iter_def)

lemma xtf8_decode_body_copy:
  assumes "utf8_next (s_cur st) (src ! s st) = UTF8_ACCEPT"
    and "\<not> is_pua (utf8_codep (s_cur st) (codepoint st) (src ! s st))"
  shows "xtf8_decode_body src error st =
           (None,
            st\<lparr>s_cur := UTF8_ACCEPT, s_prev := UTF8_ACCEPT,
               codepoint := utf8_codep (s_cur st) (codepoint st) (src ! s st),
               sz := sz st + (1 + s st - pos st),
               d := (if d st \<noteq> NULL then d st + (Suc (s st) - pos st) else d st),
               mem := (if d st \<noteq> NULL then mem st @ pending src (pos st) (Suc (s st))
                       else mem st),
               pos := s st + 1, s := s st + 1\<rparr>)"
  using assms
  by (simp add: xtf8_decode_body_def utf8_decode_eq is_pua_def [symmetric] Let_def copy_loop_eq
                next_iter_def)

lemma xtf8_decode_body_abort:
  assumes "utf8_next (s_cur st) (src ! s st) = UTF8_REJECT"
    and "error = XTF8_ERR_ABORT"
  shows "xtf8_decode_body src error st =
           (Some XTF8_ABORTED,
            st\<lparr>s_cur := UTF8_REJECT,
               codepoint := utf8_codep (s_cur st) (codepoint st) (src ! s st)\<rparr>)"
  using assms by (simp add: xtf8_decode_body_def utf8_decode_eq Let_def)

lemma xtf8_decode_body_replace:
  assumes "utf8_next (s_cur st) (src ! s st) = UTF8_REJECT"
    and "error \<noteq> XTF8_ERR_ABORT"
  shows "xtf8_decode_body src error st =
           (None,
            st\<lparr>s_cur := UTF8_ACCEPT, s_prev := UTF8_ACCEPT, codepoint := 0xFFFD,
               sz := sz st + 3,
               d := (if d st \<noteq> NULL then d st + 3 else d st),
               mem := (if d st \<noteq> NULL then mem st @ utf8_3 0xFFFD else mem st),
               pos := rewound st + 1, s := rewound st + 1\<rparr>)"
  using assms
  by (simp add: xtf8_decode_body_def utf8_decode_eq Let_def put_utf8_3_eq next_iter_def
                rewound_def)

lemma xtf8_decode_body_more:
  assumes "utf8_next (s_cur st) (src ! s st) \<noteq> UTF8_ACCEPT"
    and "utf8_next (s_cur st) (src ! s st) \<noteq> UTF8_REJECT"
  shows "xtf8_decode_body src error st =
           (None,
            st\<lparr>s_cur := utf8_next (s_cur st) (src ! s st),
               s_prev := utf8_next (s_cur st) (src ! s st),
               codepoint := utf8_codep (s_cur st) (codepoint st) (src ! s st),
               s := s st + 1\<rparr>)"
  using assms
  by (simp add: xtf8_decode_body_def utf8_decode_eq Let_def next_iter_def)

lemma xtf8_decode_body_inv:
  assumes inv: "xtf8_decode_inv src st" and dst: "xtf8_dst_inv dst st"
    and lt: "s st < length src"
  shows "(\<exists>st'. xtf8_decode_body src error st = (None, st') \<and>
                xtf8_decode_inv src st' \<and> xtf8_dst_inv dst st') \<or>
         (error = XTF8_ERR_ABORT \<and>
          (\<exists>st'. xtf8_decode_body src error st = (Some XTF8_ABORTED, st') \<and> mem st' = mem st))"
proof -
  let ?n = "utf8_next (s_cur st) (src ! s st)"
  let ?c = "utf8_codep (s_cur st) (codepoint st) (src ! s st)"
  from inv have i: "pos st \<le> s st" "s_prev st = s_cur st"
    "s_cur st \<noteq> UTF8_ACCEPT \<longrightarrow> pos st < s st" "s_cur st \<in> utf8_states"
    by (simp_all add: xtf8_decode_inv_def)
  note dn = xtf8_dst_inv_d [OF dst]
  note len = length_pending [of src "pos st" "Suc (s st)"]
  have rw: "rewound st < length src" "pos st \<le> Suc (rewound st)"
    using lt i by (auto simp: rewound_def)
  consider (pua) "?n = UTF8_ACCEPT" "is_pua ?c"
    | (copy) "?n = UTF8_ACCEPT" "\<not> is_pua ?c"
    | (abort) "?n = UTF8_REJECT" "error = XTF8_ERR_ABORT"
    | (replace) "?n = UTF8_REJECT" "error \<noteq> XTF8_ERR_ABORT"
    | (more) "?n \<noteq> UTF8_ACCEPT" "?n \<noteq> UTF8_REJECT"
    by blast
  then show ?thesis
  proof cases
    case pua
    show ?thesis
      apply (rule disjI1)
      using lt dst dn
      apply (simp add: xtf8_decode_body_pua [OF pua] xtf8_decode_inv_def xtf8_dst_inv_def)
      done
  next
    case copy
    show ?thesis
      apply (rule disjI1)
      using lt dst dn len
      apply (simp add: xtf8_decode_body_copy [OF copy] xtf8_decode_inv_def xtf8_dst_inv_def)
      done
  next
    case abort
    then show ?thesis
      using xtf8_decode_body_abort [OF abort] by simp
  next
    case replace
    show ?thesis
      apply (rule disjI1)
      using rw dst dn
      apply (simp add: xtf8_decode_body_replace [OF replace] xtf8_decode_inv_def
                       xtf8_dst_inv_def utf8_3_fffd)
      done
  next
    case more
    have st: "?n \<in> utf8_states"
      using utf8_next_closed [OF i(4), of "src ! s st"] more(2) by (auto simp: UTF8_REJECT_def)
    show ?thesis
      apply (rule disjI1)
      using lt dst i(1) more(1) st
      apply (simp add: xtf8_decode_body_more [OF more] xtf8_decode_inv_def xtf8_dst_inv_def)
      done
  qed
qed

lemma xtf8_decode_loop_inv:
  assumes "xtf8_decode_inv src st" and "xtf8_dst_inv dst st"
  shows "(\<exists>st'. xtf8_decode_loop src error st = (None, st') \<and>
                xtf8_decode_inv src st' \<and> xtf8_dst_inv dst st' \<and> s st' = length src) \<or>
         (error = XTF8_ERR_ABORT \<and>
          (\<exists>st'. xtf8_decode_loop src error st = (Some XTF8_ABORTED, st') \<and>
                 (dst = NULL \<longrightarrow> mem st' = [])))"
  using assms
proof (induction src error st rule: xtf8_decode_loop.induct)
  case (1 src error st)
  show ?case
  proof (cases "s st < length src")
    case True
    from xtf8_decode_body_inv [OF "1.prems" True, of error]
    show ?thesis
    proof (elim disjE exE conjE)
      fix st'
      assume b: "xtf8_decode_body src error st = (None, st')"
        and i: "xtf8_decode_inv src st'" "xtf8_dst_inv dst st'"
      have "xtf8_decode_loop src error st = xtf8_decode_loop src error st'"
        using b True by (subst xtf8_decode_loop.simps) simp
      with "1.IH" [OF True b [symmetric] refl i]
      show ?thesis
        by simp
    next
      fix st'
      assume b: "xtf8_decode_body src error st = (Some XTF8_ABORTED, st')"
        and e: "error = XTF8_ERR_ABORT" and m: "mem st' = mem st"
      have "dst = NULL \<longrightarrow> mem st = []"
        using "1.prems"(2) by (simp add: xtf8_dst_inv_def)
      moreover have "xtf8_decode_loop src error st = (Some XTF8_ABORTED, st')"
        using b True by (subst xtf8_decode_loop.simps) simp
      ultimately show ?thesis
        using e m by simp
    qed
  next
    case False
    with "1.prems" have "s st = length src"
      by (simp add: xtf8_decode_inv_def)
    moreover have "xtf8_decode_loop src error st = (None, st)"
      using False by (subst xtf8_decode_loop.simps) simp
    ultimately show ?thesis
      using "1.prems" by simp
  qed
qed

lemma xtf8_init_decode_inv: "xtf8_decode_inv src (xtf8_init dst)"
  by (simp add: xtf8_decode_inv_def xtf8_init_def)

lemma xtf8_decode_result:
  "(\<exists>st'. xtf8_decode_loop src error (xtf8_init dst) = (None, st') \<and>
          xtf8_decode_inv src st' \<and> xtf8_dst_inv dst st' \<and> s st' = length src \<and>
          xtf8_decode dst src error
            = (Inr (if dst = NULL then sz st' else dst + sz st'), mem st')) \<or>
   (error = XTF8_ERR_ABORT \<and>
    (\<exists>st'. xtf8_decode_loop src error (xtf8_init dst) = (Some XTF8_ABORTED, st')) \<and>
    fst (xtf8_decode dst src error) = Inl XTF8_ABORTED \<and>
    (dst = NULL \<longrightarrow> snd (xtf8_decode dst src error) = []))"
  using xtf8_decode_loop_inv [where src = src and st = "xtf8_init dst" and dst = dst
                                and error = error, OF xtf8_init_decode_inv xtf8_init_inv(2)]
proof (elim disjE exE conjE)
  fix st'
  assume l: "xtf8_decode_loop src error (xtf8_init dst) = (None, st')"
    and i: "xtf8_decode_inv src st'" "xtf8_dst_inv dst st'" "s st' = length src"
  have "xtf8_decode dst src error
          = (Inr (if dst = NULL then sz st' else dst + sz st'), mem st')"
    using i(2) xtf8_dst_inv_d [OF i(2)]
    by (auto simp: xtf8_decode_def l xtf8_dst_inv_def)
  with l i show ?thesis by blast
next
  fix st'
  assume e: "error = XTF8_ERR_ABORT"
    and l: "xtf8_decode_loop src error (xtf8_init dst) = (Some XTF8_ABORTED, st')"
    and m: "dst = NULL \<longrightarrow> mem st' = []"
  have "xtf8_decode dst src error = (Inl XTF8_ABORTED, mem st')"
    by (simp add: xtf8_decode_def l)
  with e m l show ?thesis
    by auto
qed

lemma utf8_codep_accept: "utf8_codep UTF8_ACCEPT cp x = utf8_codep UTF8_ACCEPT 0 x"
  by (simp add: utf8_codep_def utf8_decode_def Let_def)

lemma xtf8_same_flow_step:
  assumes "xtf8_same_flow a b"
  shows "s a = s b" "pos a = pos b" "sz a = sz b" "s_prev a = s_prev b" "s_cur a = s_cur b"
    "rewound a = rewound b"
    "utf8_codep (s_cur a) (codepoint a) x = utf8_codep (s_cur b) (codepoint b) x"
proof -
  from assms show e: "s a = s b" "pos a = pos b" "sz a = sz b" "s_prev a = s_prev b"
    "s_cur a = s_cur b"
    by (simp_all add: xtf8_same_flow_def)
  then show "rewound a = rewound b"
    by (simp add: rewound_def)
  show "utf8_codep (s_cur a) (codepoint a) x = utf8_codep (s_cur b) (codepoint b) x"
  proof (cases "s_cur a = UTF8_ACCEPT")
    case True
    with e(5) show ?thesis
      using utf8_codep_accept [of "codepoint a" x] utf8_codep_accept [of "codepoint b" x]
      by simp
  next
    case False
    with assms e(5) show ?thesis
      by (simp add: xtf8_same_flow_def)
  qed
qed

lemma xtf8_encode_body_same_flow:
  assumes f: "xtf8_same_flow a b"
    and ia: "xtf8_encode_inv src a" "xtf8_dst_inv da a"
    and ib: "xtf8_encode_inv src b" "xtf8_dst_inv db b"
    and lt: "s a < length src"
  shows "(\<exists>a' b'. xtf8_encode_body src error a = (None, a') \<and>
                  xtf8_encode_body src error b = (None, b') \<and> xtf8_same_flow a' b') \<or>
         (\<exists>a' b'. xtf8_encode_body src error a = (Some XTF8_ABORTED, a') \<and>
                  xtf8_encode_body src error b = (Some XTF8_ABORTED, b'))"
proof -
  note e = xtf8_same_flow_step [OF f]
  let ?n = "utf8_next (s_cur a) (src ! s a)"
  let ?c = "utf8_codep (s_cur a) (codepoint a) (src ! s a)"
  have n: "utf8_next (s_cur b) (src ! s b) = ?n"
    using e by simp
  have c: "utf8_codep (s_cur b) (codepoint b) (src ! s b) = ?c"
    using e(7) [of "src ! s a"] e(1) by simp
  have lb: "s b < length src" using lt e by simp
  consider (abort) "?n = UTF8_ACCEPT" "is_pua ?c" "error = XTF8_ERR_ABORT"
    | (replace) "?n = UTF8_ACCEPT" "is_pua ?c" "error \<noteq> XTF8_ERR_ABORT"
    | (copy) "?n = UTF8_ACCEPT" "\<not> is_pua ?c"
    | (reject) "?n = UTF8_REJECT"
    | (more) "?n \<noteq> UTF8_ACCEPT" "?n \<noteq> UTF8_REJECT"
    by blast
  then show ?thesis
  proof cases
    case abort
    from abort have "utf8_next (s_cur b) (src ! s b) = UTF8_ACCEPT"
      "is_pua (utf8_codep (s_cur b) (codepoint b) (src ! s b))"
      using n c by simp_all
    from xtf8_encode_body_abort [OF abort] xtf8_encode_body_abort [OF this abort(3)]
    show ?thesis by simp
  next
    case replace
    from replace have "utf8_next (s_cur b) (src ! s b) = UTF8_ACCEPT"
      "is_pua (utf8_codep (s_cur b) (codepoint b) (src ! s b))"
      using n c by simp_all
    from xtf8_encode_body_replace [OF replace] xtf8_encode_body_replace [OF this replace(3)]
    show ?thesis using e by (simp add: xtf8_same_flow_def)
  next
    case copy
    from copy have "utf8_next (s_cur b) (src ! s b) = UTF8_ACCEPT"
      "\<not> is_pua (utf8_codep (s_cur b) (codepoint b) (src ! s b))"
      using n c by simp_all
    from xtf8_encode_body_copy [OF copy] xtf8_encode_body_copy [OF this]
    show ?thesis using e by (simp add: xtf8_same_flow_def)
  next
    case reject
    from reject have rb: "utf8_next (s_cur b) (src ! s b) = UTF8_REJECT"
      using n by simp
    from xtf8_encode_inv_reject [OF ia lt reject]
    have ba: "\<forall>i. pos a \<le> i \<and> i \<le> rewound a \<longrightarrow> 0x80 \<le> src ! i" by blast
    from xtf8_encode_inv_reject [OF ib lb rb]
    have bb: "\<forall>i. pos b \<le> i \<and> i \<le> rewound b \<longrightarrow> 0x80 \<le> src ! i" by blast
    from xtf8_encode_body_reject [OF reject ba] xtf8_encode_body_reject [OF rb bb]
    show ?thesis using e by (simp add: xtf8_same_flow_def)
  next
    case more
    from more have "utf8_next (s_cur b) (src ! s b) \<noteq> UTF8_ACCEPT"
      "utf8_next (s_cur b) (src ! s b) \<noteq> UTF8_REJECT"
      using n by simp_all
    from xtf8_encode_body_more [OF more] xtf8_encode_body_more [OF this]
    show ?thesis using e c by (simp add: xtf8_same_flow_def)
  qed
qed

lemma xtf8_encode_loop_same_flow:
  assumes "xtf8_same_flow a b"
    and "xtf8_encode_inv src a" "xtf8_dst_inv da a"
    and "xtf8_encode_inv src b" "xtf8_dst_inv db b"
  shows "(\<exists>a' b'. xtf8_encode_loop src error a = (None, a') \<and>
                  xtf8_encode_loop src error b = (None, b') \<and> sz a' = sz b') \<or>
         (\<exists>a' b'. xtf8_encode_loop src error a = (Some XTF8_ABORTED, a') \<and>
                  xtf8_encode_loop src error b = (Some XTF8_ABORTED, b'))"
  using assms
proof (induction src error a arbitrary: b rule: xtf8_encode_loop.induct)
  case (1 src error a)
  note e = xtf8_same_flow_step [OF "1.prems"(1)]
  show ?case
  proof (cases "s a < length src")
    case True
    then have lb: "s b < length src" using e by simp
    from xtf8_encode_body_same_flow [OF "1.prems" True, of error]
    show ?thesis
    proof (elim disjE exE conjE)
      fix a' b'
      assume ba: "xtf8_encode_body src error a = (None, a')"
        and bb: "xtf8_encode_body src error b = (None, b')"
        and f: "xtf8_same_flow a' b'"
      from xtf8_encode_body_inv [OF "1.prems"(2,3) True, of error] ba
      have ia: "xtf8_encode_inv src a'" "xtf8_dst_inv da a'" by auto
      from xtf8_encode_body_inv [OF "1.prems"(4,5) lb, of error] bb
      have ib: "xtf8_encode_inv src b'" "xtf8_dst_inv db b'" by auto
      have "xtf8_encode_loop src error a = xtf8_encode_loop src error a'"
        using ba True by (subst xtf8_encode_loop.simps) simp
      moreover have "xtf8_encode_loop src error b = xtf8_encode_loop src error b'"
        using bb lb by (subst xtf8_encode_loop.simps) simp
      ultimately show ?thesis
        using "1.IH" [OF True ba [symmetric] refl f ia ib] by simp
    next
      fix a' b'
      assume ba: "xtf8_encode_body src error a = (Some XTF8_ABORTED, a')"
        and bb: "xtf8_encode_body src error b = (Some XTF8_ABORTED, b')"
      have "xtf8_encode_loop src error a = (Some XTF8_ABORTED, a')"
        using ba True by (subst xtf8_encode_loop.simps) simp
      moreover have "xtf8_encode_loop src error b = (Some XTF8_ABORTED, b')"
        using bb lb by (subst xtf8_encode_loop.simps) simp
      ultimately show ?thesis by simp
    qed
  next
    case False
    then have lb: "\<not> s b < length src" using e by simp
    have "xtf8_encode_loop src error a = (None, a)"
      using False by (subst xtf8_encode_loop.simps) simp
    moreover have "xtf8_encode_loop src error b = (None, b)"
      using lb by (subst xtf8_encode_loop.simps) simp
    ultimately show ?thesis using e by simp
  qed
qed

lemma xtf8_decode_body_same_flow:
  assumes f: "xtf8_same_flow a b"
  shows "(\<exists>a' b'. xtf8_decode_body src error a = (None, a') \<and>
                  xtf8_decode_body src error b = (None, b') \<and> xtf8_same_flow a' b') \<or>
         (\<exists>a' b'. xtf8_decode_body src error a = (Some XTF8_ABORTED, a') \<and>
                  xtf8_decode_body src error b = (Some XTF8_ABORTED, b'))"
proof -
  note e = xtf8_same_flow_step [OF f]
  let ?n = "utf8_next (s_cur a) (src ! s a)"
  let ?c = "utf8_codep (s_cur a) (codepoint a) (src ! s a)"
  have n: "utf8_next (s_cur b) (src ! s b) = ?n"
    using e by simp
  have c: "utf8_codep (s_cur b) (codepoint b) (src ! s b) = ?c"
    using e(7) [of "src ! s a"] e(1) by simp
  consider (pua) "?n = UTF8_ACCEPT" "is_pua ?c"
    | (copy) "?n = UTF8_ACCEPT" "\<not> is_pua ?c"
    | (abort) "?n = UTF8_REJECT" "error = XTF8_ERR_ABORT"
    | (replace) "?n = UTF8_REJECT" "error \<noteq> XTF8_ERR_ABORT"
    | (more) "?n \<noteq> UTF8_ACCEPT" "?n \<noteq> UTF8_REJECT"
    by blast
  then show ?thesis
  proof cases
    case pua
    from pua have "utf8_next (s_cur b) (src ! s b) = UTF8_ACCEPT"
      "is_pua (utf8_codep (s_cur b) (codepoint b) (src ! s b))"
      using n c by simp_all
    from xtf8_decode_body_pua [OF pua] xtf8_decode_body_pua [OF this]
    show ?thesis using e c by (simp add: xtf8_same_flow_def)
  next
    case copy
    from copy have "utf8_next (s_cur b) (src ! s b) = UTF8_ACCEPT"
      "\<not> is_pua (utf8_codep (s_cur b) (codepoint b) (src ! s b))"
      using n c by simp_all
    from xtf8_decode_body_copy [OF copy] xtf8_decode_body_copy [OF this]
    show ?thesis using e by (simp add: xtf8_same_flow_def)
  next
    case abort
    from abort have "utf8_next (s_cur b) (src ! s b) = UTF8_REJECT"
      using n by simp
    from xtf8_decode_body_abort [OF abort] xtf8_decode_body_abort [OF this abort(2)]
    show ?thesis by simp
  next
    case replace
    from replace have "utf8_next (s_cur b) (src ! s b) = UTF8_REJECT"
      using n by simp
    from xtf8_decode_body_replace [OF replace] xtf8_decode_body_replace [OF this replace(2)]
    show ?thesis using e by (simp add: xtf8_same_flow_def)
  next
    case more
    from more have "utf8_next (s_cur b) (src ! s b) \<noteq> UTF8_ACCEPT"
      "utf8_next (s_cur b) (src ! s b) \<noteq> UTF8_REJECT"
      using n by simp_all
    from xtf8_decode_body_more [OF more] xtf8_decode_body_more [OF this]
    show ?thesis using e c by (simp add: xtf8_same_flow_def)
  qed
qed

lemma xtf8_decode_loop_same_flow:
  assumes "xtf8_same_flow a b"
  shows "(\<exists>a' b'. xtf8_decode_loop src error a = (None, a') \<and>
                  xtf8_decode_loop src error b = (None, b') \<and> sz a' = sz b') \<or>
         (\<exists>a' b'. xtf8_decode_loop src error a = (Some XTF8_ABORTED, a') \<and>
                  xtf8_decode_loop src error b = (Some XTF8_ABORTED, b'))"
  using assms
proof (induction src error a arbitrary: b rule: xtf8_decode_loop.induct)
  case (1 src error a)
  note e = xtf8_same_flow_step [OF "1.prems"(1)]
  show ?case
  proof (cases "s a < length src")
    case True
    then have lb: "s b < length src" using e by simp
    from xtf8_decode_body_same_flow [OF "1.prems", of src error]
    show ?thesis
    proof (elim disjE exE conjE)
      fix a' b'
      assume ba: "xtf8_decode_body src error a = (None, a')"
        and bb: "xtf8_decode_body src error b = (None, b')"
        and f: "xtf8_same_flow a' b'"
      have "xtf8_decode_loop src error a = xtf8_decode_loop src error a'"
        using ba True by (subst xtf8_decode_loop.simps) simp
      moreover have "xtf8_decode_loop src error b = xtf8_decode_loop src error b'"
        using bb lb by (subst xtf8_decode_loop.simps) simp
      ultimately show ?thesis
        using "1.IH" [OF True ba [symmetric] refl f] by simp
    next
      fix a' b'
      assume ba: "xtf8_decode_body src error a = (Some XTF8_ABORTED, a')"
        and bb: "xtf8_decode_body src error b = (Some XTF8_ABORTED, b')"
      have "xtf8_decode_loop src error a = (Some XTF8_ABORTED, a')"
        using ba True by (subst xtf8_decode_loop.simps) simp
      moreover have "xtf8_decode_loop src error b = (Some XTF8_ABORTED, b')"
        using bb lb by (subst xtf8_decode_loop.simps) simp
      ultimately show ?thesis by simp
    qed
  next
    case False
    then have lb: "\<not> s b < length src" using e by simp
    have "xtf8_decode_loop src error a = (None, a)"
      using False by (subst xtf8_decode_loop.simps) simp
    moreover have "xtf8_decode_loop src error b = (None, b)"
      using lb by (subst xtf8_decode_loop.simps) simp
    ultimately show ?thesis using e by simp
  qed
qed

lemma xtf8_init_same_flow: "xtf8_same_flow (xtf8_init da) (xtf8_init db)"
  by (simp add: xtf8_same_flow_def xtf8_init_def)

section \<open>Runs of the encoder through a part of the buffer\<close>

lemma pending_embedded:
  assumes "xtf8_embedded k src_a src_b" and "j \<le> length src_a"
  shows "pending src_b (i + k) (j + k) = pending src_a i j"
proof (rule nth_equalityI)
  show "length (pending src_b (i + k) (j + k)) = length (pending src_a i j)"
    by (simp add: length_pending)
next
  fix m
  assume "m < length (pending src_b (i + k) (j + k))"
  then have m: "i + m < j" by (simp add: length_pending)
  with assms have "src_b ! (i + m + k) = src_a ! (i + m)"
    by (simp add: xtf8_embedded_def)
  with m show "pending src_b (i + k) (j + k) ! m = pending src_a i j ! m"
    by (simp add: pending_def add.assoc add.commute add.left_commute)
qed

lemma xtf8_shifted_step:
  assumes f: "xtf8_shifted k M n a b" and e: "xtf8_embedded k src_a src_b"
    and inv: "xtf8_encode_inv src_a a" and lt: "s a < length src_a"
  shows "s b = s a + k" "pos b = pos a + k" "s_prev b = s_prev a" "s_cur b = s_cur a"
    "sz b = sz a + n" "mem b = M @ mem a" "(d b \<noteq> NULL) = (d a \<noteq> NULL)"
    "d a \<noteq> NULL \<Longrightarrow> d b = d a + n"
    "rewound b = rewound a + k" "src_b ! s b = src_a ! s a" "s b < length src_b"
    "utf8_codep (s_cur b) (codepoint b) x = utf8_codep (s_cur a) (codepoint a) x"
    "pending src_b (pos b) (Suc (s b)) = pending src_a (pos a) (Suc (s a))"
    "pending src_b (pos b) (Suc (rewound b)) = pending src_a (pos a) (Suc (rewound a))"
    "src_b ! rewound b = src_a ! rewound a"
proof -
  from f show b: "s b = s a + k" "pos b = pos a + k" "s_prev b = s_prev a" "s_cur b = s_cur a"
    "sz b = sz a + n" "mem b = M @ mem a" "(d b \<noteq> NULL) = (d a \<noteq> NULL)"
    by (simp_all add: xtf8_shifted_def)
  from f show "d a \<noteq> NULL \<Longrightarrow> d b = d a + n"
    by (simp add: xtf8_shifted_def)
  from inv have i: "pos a \<le> s a" "s_prev a = s_cur a"
    "utf8_scan UTF8_ACCEPT (pending src_a (pos a) (s a)) = s_cur a"
    by (simp_all add: xtf8_encode_inv_def)
  have pos: "s_prev a \<noteq> UTF8_ACCEPT \<Longrightarrow> 0 < s a"
    using i by (cases "s a") (auto simp: pending_simps(1))
  then show r: "rewound b = rewound a + k"
    using b by (auto simp: rewound_def)
  have rl: "rewound a < length src_a"
    using lt by (auto simp: rewound_def)
  from e lt b show "src_b ! s b = src_a ! s a"
    by (simp add: xtf8_embedded_def)
  from e rl r show "src_b ! rewound b = src_a ! rewound a"
    by (simp add: xtf8_embedded_def)
  from e lt b show "s b < length src_b"
    by (simp add: xtf8_embedded_def)
  show "utf8_codep (s_cur b) (codepoint b) x = utf8_codep (s_cur a) (codepoint a) x"
  proof (cases "s_cur a = UTF8_ACCEPT")
    case True
    with b(4) show ?thesis
      using utf8_codep_accept [of "codepoint a" x] utf8_codep_accept [of "codepoint b" x]
      by simp
  next
    case False
    with f b(4) show ?thesis
      by (simp add: xtf8_shifted_def)
  qed
  from pending_embedded [OF e, of "Suc (s a)" "pos a"] lt b
  show "pending src_b (pos b) (Suc (s b)) = pending src_a (pos a) (Suc (s a))"
    by simp
  from pending_embedded [OF e, of "Suc (rewound a)" "pos a"] rl b r
  show "pending src_b (pos b) (Suc (rewound b)) = pending src_a (pos a) (Suc (rewound a))"
    by simp
qed

lemma xtf8_encode_body_shifted:
  assumes f: "xtf8_shifted k M n a b" and e: "xtf8_embedded k src_a src_b"
    and ia: "xtf8_encode_inv src_a a" "xtf8_dst_inv da a"
    and lt: "s a < length src_a"
  shows "(\<exists>a' b'. xtf8_encode_body src_a error a = (None, a') \<and>
                  xtf8_encode_body src_b error b = (None, b') \<and> xtf8_shifted k M n a' b') \<or>
         (\<exists>a' b'. xtf8_encode_body src_a error a = (Some XTF8_ABORTED, a') \<and>
                  xtf8_encode_body src_b error b = (Some XTF8_ABORTED, b') \<and>
                  mem a' = mem a \<and> mem b' = mem b)"
proof -
  note t = xtf8_shifted_step [OF f e ia(1) lt]
  let ?n = "utf8_next (s_cur a) (src_a ! s a)"
  let ?c = "utf8_codep (s_cur a) (codepoint a) (src_a ! s a)"
  have n: "utf8_next (s_cur b) (src_b ! s b) = ?n"
    using t by simp
  have c: "utf8_codep (s_cur b) (codepoint b) (src_b ! s b) = ?c"
    using t(12) [of "src_a ! s a"] t(10) by simp
  consider (abort) "?n = UTF8_ACCEPT" "is_pua ?c" "error = XTF8_ERR_ABORT"
    | (replace) "?n = UTF8_ACCEPT" "is_pua ?c" "error \<noteq> XTF8_ERR_ABORT"
    | (copy) "?n = UTF8_ACCEPT" "\<not> is_pua ?c"
    | (reject) "?n = UTF8_REJECT"
    | (more) "?n \<noteq> UTF8_ACCEPT" "?n \<noteq> UTF8_REJECT"
    by blast
  then show ?thesis
  proof cases
    case abort
    from abort have "utf8_next (s_cur b) (src_b ! s b) = UTF8_ACCEPT"
      "is_pua (utf8_codep (s_cur b) (codepoint b) (src_b ! s b))"
      using n c by simp_all
    from xtf8_encode_body_abort [OF abort] xtf8_encode_body_abort [OF this abort(3)]
    show ?thesis by simp
  next
    case replace
    from replace have "utf8_next (s_cur b) (src_b ! s b) = UTF8_ACCEPT"
      "is_pua (utf8_codep (s_cur b) (codepoint b) (src_b ! s b))"
      using n c by simp_all
    from xtf8_encode_body_replace [OF replace] xtf8_encode_body_replace [OF this replace(3)]
    show ?thesis using t(1-8) by (simp add: xtf8_shifted_def NULL_def)
  next
    case copy
    from copy have "utf8_next (s_cur b) (src_b ! s b) = UTF8_ACCEPT"
      "\<not> is_pua (utf8_codep (s_cur b) (codepoint b) (src_b ! s b))"
      using n c by simp_all
    from xtf8_encode_body_copy [OF copy] xtf8_encode_body_copy [OF this]
    show ?thesis using t(1-8,13) by (simp add: xtf8_shifted_def NULL_def)
  next
    case reject
    from reject have rb: "utf8_next (s_cur b) (src_b ! s b) = UTF8_REJECT"
      using n by simp
    from xtf8_encode_inv_reject [OF ia lt reject]
    have ba: "\<forall>i. pos a \<le> i \<and> i \<le> rewound a \<longrightarrow> 0x80 \<le> src_a ! i" by blast
    then have "\<forall>x \<in> set (pending src_a (pos a) (Suc (rewound a))). 0x80 \<le> x"
      by (simp add: ball_pending less_Suc_eq_le)
    then have "\<forall>x \<in> set (pending src_b (pos b) (Suc (rewound b))). 0x80 \<le> x"
      using t(14) by simp
    then have bb: "\<forall>i. pos b \<le> i \<and> i \<le> rewound b \<longrightarrow> 0x80 \<le> src_b ! i"
      by (simp add: ball_pending less_Suc_eq_le)
    from xtf8_encode_body_reject [OF reject ba] xtf8_encode_body_reject [OF rb bb]
    show ?thesis using t(1-9,14) by (simp add: xtf8_shifted_def max_def NULL_def)
  next
    case more
    from more have "utf8_next (s_cur b) (src_b ! s b) \<noteq> UTF8_ACCEPT"
      "utf8_next (s_cur b) (src_b ! s b) \<noteq> UTF8_REJECT"
      using n by simp_all
    from xtf8_encode_body_more [OF more] xtf8_encode_body_more [OF this]
    show ?thesis using t(1-8,10) c by (simp add: xtf8_shifted_def NULL_def)
  qed
qed

lemma xtf8_encode_loop_shifted:
  assumes "xtf8_shifted k M n a b" and "xtf8_embedded k src_a src_b"
    and "xtf8_encode_inv src_a a" "xtf8_dst_inv da a"
    and "xtf8_encode_inv src_b b" "xtf8_dst_inv db b"
  shows "(\<exists>a' b'. xtf8_encode_loop src_a error a = (None, a') \<and>
                  xtf8_encode_loop src_b error b = xtf8_encode_loop src_b error b' \<and>
                  xtf8_shifted k M n a' b' \<and> s a' = length src_a \<and>
                  xtf8_encode_inv src_a a' \<and> xtf8_dst_inv da a' \<and>
                  xtf8_encode_inv src_b b' \<and> xtf8_dst_inv db b') \<or>
         (error = XTF8_ERR_ABORT \<and>
          (\<exists>a' b'. xtf8_encode_loop src_a error a = (Some XTF8_ABORTED, a') \<and>
                   xtf8_encode_loop src_b error b = (Some XTF8_ABORTED, b')))"
  using assms
proof (induction src_a error a arbitrary: b rule: xtf8_encode_loop.induct)
  case (1 src_a error a)
  note e = "1.prems"(2)
  show ?case
  proof (cases "s a < length src_a")
    case True
    note t = xtf8_shifted_step [OF "1.prems"(1) e "1.prems"(3) True]
    from xtf8_encode_body_shifted [OF "1.prems"(1) e "1.prems"(3,4) True, of error]
    show ?thesis
    proof (elim disjE exE conjE)
      fix a' b'
      assume ba: "xtf8_encode_body src_a error a = (None, a')"
        and bb: "xtf8_encode_body src_b error b = (None, b')"
        and f: "xtf8_shifted k M n a' b'"
      from xtf8_encode_body_inv [OF "1.prems"(3,4) True, of error] ba
      have ia: "xtf8_encode_inv src_a a'" "xtf8_dst_inv da a'" by auto
      from xtf8_encode_body_inv [OF "1.prems"(5,6) t(11), of error] bb
      have ib: "xtf8_encode_inv src_b b'" "xtf8_dst_inv db b'" by auto
      have "xtf8_encode_loop src_a error a = xtf8_encode_loop src_a error a'"
        using ba True by (subst xtf8_encode_loop.simps) simp
      moreover have "xtf8_encode_loop src_b error b = xtf8_encode_loop src_b error b'"
        using bb t(11) by (subst xtf8_encode_loop.simps) simp
      ultimately show ?thesis
        using "1.IH" [OF True ba [symmetric] refl f e ia ib] by simp
    next
      fix a' b'
      assume ba: "xtf8_encode_body src_a error a = (Some XTF8_ABORTED, a')"
        and bb: "xtf8_encode_body src_b error b = (Some XTF8_ABORTED, b')"
      from xtf8_encode_body_inv [OF "1.prems"(3,4) True, of error] ba
      have ab: "error = XTF8_ERR_ABORT" by auto
      have "xtf8_encode_loop src_a error a = (Some XTF8_ABORTED, a')"
        using ba True by (subst xtf8_encode_loop.simps) simp
      moreover have "xtf8_encode_loop src_b error b = (Some XTF8_ABORTED, b')"
        using bb t(11) by (subst xtf8_encode_loop.simps) simp
      ultimately show ?thesis using ab by simp
    qed
  next
    case False
    with "1.prems"(3) have el: "s a = length src_a"
      by (simp add: xtf8_encode_inv_def)
    have "xtf8_encode_loop src_a error a = (None, a)"
      using False by (subst xtf8_encode_loop.simps) simp
    with el "1.prems" show ?thesis by blast
  qed
qed






lemma xtf8_encode_loop_unfold:
  "s st < length src \<Longrightarrow> xtf8_encode_body src error st = (None, st') \<Longrightarrow>
     xtf8_encode_loop src error st = xtf8_encode_loop src error st'"
  "s st < length src \<Longrightarrow> xtf8_encode_body src error st = (Some f, st') \<Longrightarrow>
     xtf8_encode_loop src error st = (Some f, st')"
  "\<not> s st < length src \<Longrightarrow> xtf8_encode_loop src error st = (None, st)"
  by (subst xtf8_encode_loop.simps, simp)+


text \<open>
  Reading, with a sequence under way, a byte that starts a multi-byte sequence: the byte is
  rejected, the loop steps back onto it, and the pending bytes are converted.
\<close>

lemma xtf8_encode_flush_step:
  assumes inv: "xtf8_encode_inv src st" "xtf8_dst_inv dst st"
    and lt: "s st < length src"
    and lead: "utf8_next UTF8_ACCEPT (src ! s st) \<noteq> UTF8_ACCEPT"
              "utf8_next UTF8_ACCEPT (src ! s st) \<noteq> UTF8_REJECT"
    and na: "s_cur st \<noteq> UTF8_ACCEPT"
  shows "\<exists>st'. xtf8_encode_loop src error st = xtf8_encode_loop src error st' \<and>
           xtf8_encode_inv src st' \<and> xtf8_dst_inv dst st' \<and>
           s st' = s st \<and> pos st' = s st \<and> s_cur st' = UTF8_ACCEPT \<and>
           sz st' = sz st + 3 * (s st - pos st) \<and>
           mem st' = (if dst = NULL then []
                      else mem st @ concat (map pua_3 (pending src (pos st) (s st))))"
proof -
  from inv(1) have i: "s_cur st \<in> utf8_states" "s_prev st = s_cur st" "pos st \<le> s st"
    "utf8_scan UTF8_ACCEPT (pending src (pos st) (s st)) = s_cur st"
    by (simp_all add: xtf8_encode_inv_def)
  from i(3,4) na have ps: "pos st < s st"
    by (cases "pos st = s st") (auto simp: pending_simps(1))
  then have rw: "rewound st = s st - 1" "Suc (s st - 1) = s st"
    using na i(2) by (simp_all add: rewound_def)
  note rej = utf8_next_lead [OF i(1) na lead]
  note r = xtf8_encode_inv_reject [OF inv lt rej]
  from r have bt: "\<forall>i. pos st \<le> i \<and> i \<le> rewound st \<longrightarrow> 0x80 \<le> src ! i"
    by blast
  note b = xtf8_encode_body_reject [OF rej bt, of error]
  let ?st1 = "snd (xtf8_encode_body src error st)"
  from xtf8_encode_body_inv [OF inv lt, of error] b
  have i1: "xtf8_encode_inv src ?st1" "xtf8_dst_inv dst ?st1"
    by auto
  from inv(2) have m: "dst = NULL \<Longrightarrow> mem st = []"
    by (simp add: xtf8_dst_inv_def)
  have s1: "s ?st1 = s st" "pos ?st1 = s st" "s_cur ?st1 = UTF8_ACCEPT"
    "sz ?st1 = sz st + 3 * (s st - pos st)"
    "mem ?st1 = (if dst = NULL then []
                 else mem st @ concat (map pua_3 (pending src (pos st) (s st))))"
    using ps m xtf8_dst_inv_d [OF inv(2)] by (simp_all add: b rw max_def)
  have l: "xtf8_encode_loop src error st = xtf8_encode_loop src error ?st1"
    using xtf8_encode_loop_unfold(1) [OF lt, where error = error and st' = ?st1] b by simp
  from l i1 s1 show ?thesis
    by (intro exI [of _ ?st1]) simp
qed


lemma xtf8_embedded_prefix: "xtf8_embedded 0 pre (pre @ rest)"
  by (simp add: xtf8_embedded_def nth_append)


lemma xtf8_shifted_init: "xtf8_shifted 0 [] 0 (xtf8_init dst) (xtf8_init dst)"
  by (simp add: xtf8_shifted_def xtf8_init_def)

text \<open>
  The loop on \<open>pre @ rest\<close> passes through the state in which the loop on \<open>pre\<close> ends
  (up to a dead codepoint), or both abort.
\<close>

lemma xtf8_encode_loop_prefix:
  "(\<exists>a b. xtf8_encode_loop pre error (xtf8_init dst) = (None, a) \<and>
          xtf8_encode_loop (pre @ rest) error (xtf8_init dst)
            = xtf8_encode_loop (pre @ rest) error b \<and>
          xtf8_shifted 0 [] 0 a b \<and> s a = length pre \<and>
          xtf8_encode_inv pre a \<and> xtf8_encode_inv (pre @ rest) b \<and> xtf8_dst_inv dst b) \<or>
   (error = XTF8_ERR_ABORT \<and>
    (\<exists>a' b'. xtf8_encode_loop pre error (xtf8_init dst) = (Some XTF8_ABORTED, a') \<and>
       xtf8_encode_loop (pre @ rest) error (xtf8_init dst) = (Some XTF8_ABORTED, b')))"
  using xtf8_encode_loop_shifted [where k = 0 and M = "[]" and n = 0
          and a = "xtf8_init dst" and b = "xtf8_init dst" and src_a = pre
          and src_b = "pre @ rest" and da = dst and db = dst and error = error,
          OF xtf8_shifted_init xtf8_embedded_prefix xtf8_init_inv xtf8_init_inv]
  by blast



lemma xtf8_encode_loop_needs_more:
  assumes "xtf8_encode_inv src st" and "xtf8_dst_inv dst st"
    and "utf8_needs_more (s_cur st) (drop (s st) src)"
  shows "\<exists>st'. xtf8_encode_loop src error st = (None, st') \<and>
           mem st' = mem st \<and> sz st' = sz st"
  using assms
proof (induction src error st rule: xtf8_encode_loop.induct)
  case (1 src error st)
  show ?case
  proof (cases "s st < length src")
    case True
    then have dr: "drop (s st) src = src ! s st # drop (Suc (s st)) src"
      by (simp add: Cons_nth_drop_Suc)
    with "1.prems"(3) have more: "utf8_next (s_cur st) (src ! s st) \<noteq> UTF8_ACCEPT"
      "utf8_next (s_cur st) (src ! s st) \<noteq> UTF8_REJECT"
      and nm: "utf8_needs_more (utf8_next (s_cur st) (src ! s st)) (drop (Suc (s st)) src)"
      by simp_all
    note b = xtf8_encode_body_more [OF more, of error]
    let ?st' = "snd (xtf8_encode_body src error st)"
    from xtf8_encode_body_inv [OF "1.prems"(1,2) True, of error] b
    have i: "xtf8_encode_inv src ?st'" "xtf8_dst_inv dst ?st'"
      by auto
    have nm': "utf8_needs_more (s_cur ?st') (drop (s ?st') src)"
      using nm by (simp add: b)
    have l: "xtf8_encode_loop src error st = xtf8_encode_loop src error ?st'"
      using xtf8_encode_loop_unfold(1) [OF True, where error = error and st' = ?st'] b
      by simp
    have "xtf8_encode_body src error st = (None, ?st')"
      by (simp add: b)
    from "1.IH" [OF True this [symmetric] refl i nm'] l
    show ?thesis by (simp add: b)
  next
    case False
    then show ?thesis
      using xtf8_encode_loop_unfold(3) [OF False, of error] by simp
  qed
qed

text \<open>
  The pending region is, at every loop test, a sequence after every byte of which the
  scanner wanted more.
\<close>

lemma xtf8_encode_body_needs_more:
  assumes inv: "xtf8_encode_inv src st" and dst: "xtf8_dst_inv dst st"
    and lt: "s st < length src"
    and nm: "utf8_needs_more UTF8_ACCEPT (pending src (pos st) (s st))"
    and b: "xtf8_encode_body src error st = (None, st')"
  shows "utf8_needs_more UTF8_ACCEPT (pending src (pos st') (s st'))"
proof -
  let ?n = "utf8_next (s_cur st) (src ! s st)"
  let ?c = "utf8_codep (s_cur st) (codepoint st) (src ! s st)"
  from inv have i: "pos st \<le> s st"
    "utf8_scan UTF8_ACCEPT (pending src (pos st) (s st)) = s_cur st"
    by (simp_all add: xtf8_encode_inv_def)
  consider (abort) "?n = UTF8_ACCEPT" "is_pua ?c" "error = XTF8_ERR_ABORT"
    | (replace) "?n = UTF8_ACCEPT" "is_pua ?c" "error \<noteq> XTF8_ERR_ABORT"
    | (copy) "?n = UTF8_ACCEPT" "\<not> is_pua ?c"
    | (reject) "?n = UTF8_REJECT"
    | (more) "?n \<noteq> UTF8_ACCEPT" "?n \<noteq> UTF8_REJECT"
    by blast
  then show ?thesis
  proof cases
    case abort
    from xtf8_encode_body_abort [OF abort] b show ?thesis by simp
  next
    case replace
    from xtf8_encode_body_replace [OF replace] b have "pos st' = s st'" by auto
    then show ?thesis by (simp add: pending_simps(1))
  next
    case copy
    from xtf8_encode_body_copy [OF copy, of error] b have "pos st' = s st'" by auto
    then show ?thesis by (simp add: pending_simps(1))
  next
    case reject
    from xtf8_encode_inv_reject [OF inv dst lt reject]
    have bt: "\<forall>i. pos st \<le> i \<and> i \<le> rewound st \<longrightarrow> 0x80 \<le> src ! i" by blast
    have "pos st \<le> Suc (rewound st)"
      using i(1) by (auto simp: rewound_def)
    with xtf8_encode_body_reject [OF reject bt, of error] b have "pos st' = s st'" by auto
    then show ?thesis by (simp add: pending_simps(1))
  next
    case more
    from xtf8_encode_body_more [OF more, of error] b
    have "pos st' = pos st" "s st' = Suc (s st)" by auto
    then show ?thesis
      using nm i more by (simp add: pending_simps(2) utf8_needs_more_append)
  qed
qed

lemma xtf8_encode_loop_pending:
  assumes "xtf8_encode_inv src st" and "xtf8_dst_inv dst st"
    and "utf8_needs_more UTF8_ACCEPT (pending src (pos st) (s st))"
    and "xtf8_encode_loop src error st = (None, st')"
  shows "utf8_needs_more UTF8_ACCEPT (pending src (pos st') (s st'))"
  using assms
proof (induction src error st rule: xtf8_encode_loop.induct)
  case (1 src error st)
  show ?case
  proof (cases "s st < length src")
    case True
    from xtf8_encode_body_inv [OF "1.prems"(1,2) True, of error]
    show ?thesis
    proof (elim disjE exE conjE)
      fix st1
      assume b: "xtf8_encode_body src error st = (None, st1)"
        and i: "xtf8_encode_inv src st1" "xtf8_dst_inv dst st1"
      note nm = xtf8_encode_body_needs_more [OF "1.prems"(1,2) True "1.prems"(3) b]
      have "xtf8_encode_loop src error st1 = (None, st')"
        using xtf8_encode_loop_unfold(1) [OF True b] "1.prems"(4) by simp
      from "1.IH" [OF True b [symmetric] refl i nm this] show ?thesis .
    next
      fix st1
      assume "xtf8_encode_body src error st = (Some XTF8_ABORTED, st1)"
      from xtf8_encode_loop_unfold(2) [OF True this] "1.prems"(4) show ?thesis by simp
    qed
  next
    case False
    from xtf8_encode_loop_unfold(3) [OF False, of error] "1.prems"(3,4) show ?thesis by simp
  qed
qed

text \<open>
  The loop has ended with the scanner in a state other than \<^verbatim>\<open>UTF8_ACCEPT\<close>. The pending
  bytes \<open>B[pos..)\<close> are an unfinished sequence, and the loop has counted and stored what
  the loop on the bytes before them counts and stores, plus the three bytes for each byte
  that those leave pending themselves.
\<close>

lemma xtf8_encode_loop_tail:
  assumes run: "xtf8_encode_loop B error (xtf8_init dst) = (None, st)"
    and more: "s_cur st \<noteq> UTF8_ACCEPT"
  shows "pos st < length B" "s st = length B"
    "utf8_needs_more UTF8_ACCEPT (drop (pos st) B)"
    "\<exists>a. xtf8_encode_loop (take (pos st) B) error (xtf8_init dst) = (None, a) \<and>
         xtf8_encode_inv (take (pos st) B) a \<and> xtf8_dst_inv dst a \<and> s a = pos st \<and>
         sz st = sz a + 3 * (pos st - pos a) \<and>
         mem st = (if dst = NULL then []
                   else mem a @ concat (map pua_3 (pending B (pos a) (pos st))))"
proof -
  let ?p = "pos st"
  let ?P = "take ?p B"
  let ?T = "drop ?p B"
  from xtf8_encode_result [of B error dst] run
  have st: "xtf8_encode_inv B st" "xtf8_dst_inv dst st" "s st = length B"
    by auto
  show "s st = length B" by fact
  from st(1) have i: "pos st \<le> s st"
    "utf8_scan UTF8_ACCEPT (pending B (pos st) (s st)) = s_cur st"
    by (simp_all add: xtf8_encode_inv_def)
  from i more st(3) show lt: "?p < length B"
    by (cases "pos st = s st") (auto simp: pending_simps(1))
  have "utf8_needs_more UTF8_ACCEPT (pending B (pos (xtf8_init dst)) (s (xtf8_init dst)))"
    by (simp add: xtf8_init_def pending_simps(1))
  from xtf8_encode_loop_pending [OF xtf8_init_inv this run]
  show nm: "utf8_needs_more UTF8_ACCEPT ?T"
    using st(3) lt by (simp add: pending_drop)
  have B: "?P @ ?T = B" and lp: "length ?P = ?p"
    using lt by simp_all
  from xtf8_encode_loop_prefix [of ?P error dst ?T] run
  obtain a b where a: "xtf8_encode_loop ?P error (xtf8_init dst) = (None, a)"
    and l: "xtf8_encode_loop B error (xtf8_init dst) = xtf8_encode_loop B error b"
    and f: "xtf8_shifted 0 [] 0 a b" and sa: "s a = length ?P"
    and ia: "xtf8_encode_inv ?P a" and ib: "xtf8_encode_inv B b" "xtf8_dst_inv dst b"
    unfolding B by auto
  from f sa lp have sb: "s b = ?p" "pos b = pos a" "s_cur b = s_cur a" "mem b = mem a"
    "sz b = sz a"
    by (simp_all add: xtf8_shifted_def)
  from xtf8_encode_loop_inv [where src = ?P and st = "xtf8_init dst" and dst = dst
         and error = error, OF xtf8_init_inv] a
  have da: "xtf8_dst_inv dst a" by auto
  have T: "?T = B ! ?p # drop (Suc ?p) B"
    using lt by (simp add: Cons_nth_drop_Suc)
  have "\<exists>b1. xtf8_encode_loop B error b = xtf8_encode_loop B error b1 \<and>
          xtf8_encode_inv B b1 \<and> xtf8_dst_inv dst b1 \<and> s b1 = ?p \<and> s_cur b1 = UTF8_ACCEPT \<and>
          sz b1 = sz a + 3 * (?p - pos a) \<and>
          mem b1 = (if dst = NULL then []
                    else mem a @ concat (map pua_3 (pending B (pos a) ?p)))"
  proof (cases "s_cur b = UTF8_ACCEPT")
    case True
    with ia sb sa lp have "pos a = ?p"
      by (simp add: xtf8_encode_inv_def)
    moreover from ib(2) have "dst = NULL \<Longrightarrow> mem b = []"
      by (simp add: xtf8_dst_inv_def)
    ultimately show ?thesis
      using ib sb True by (intro exI [of _ b]) (simp add: pending_simps(1))
  next
    case False
    have ltb: "s b < length B" using sb lt by simp
    from nm have lead: "utf8_next UTF8_ACCEPT (B ! s b) \<noteq> UTF8_ACCEPT"
      "utf8_next UTF8_ACCEPT (B ! s b) \<noteq> UTF8_REJECT"
      by (subst (asm) T, simp add: sb)+
    from xtf8_encode_flush_step [OF ib ltb lead False, of error]
    show ?thesis using sb by auto
  qed
  then obtain b1 where b1: "xtf8_encode_loop B error b = xtf8_encode_loop B error b1"
    "xtf8_encode_inv B b1" "xtf8_dst_inv dst b1" "s b1 = ?p" "s_cur b1 = UTF8_ACCEPT"
    "sz b1 = sz a + 3 * (?p - pos a)"
    "mem b1 = (if dst = NULL then []
               else mem a @ concat (map pua_3 (pending B (pos a) ?p)))"
    by blast
  have "utf8_needs_more (s_cur b1) (drop (s b1) B)"
    using nm b1(4,5) by simp
  from xtf8_encode_loop_needs_more [OF b1(2,3) this, of error] run l b1(1)
  have "mem st = mem b1" "sz st = sz b1"
    by auto
  with a ia da sa lp b1(6,7)
  show "\<exists>a. xtf8_encode_loop ?P error (xtf8_init dst) = (None, a) \<and>
         xtf8_encode_inv ?P a \<and> xtf8_dst_inv dst a \<and> s a = ?p \<and>
         sz st = sz a + 3 * (?p - pos a) \<and>
         mem st = (if dst = NULL then []
                   else mem a @ concat (map pua_3 (pending B (pos a) ?p)))"
    by (intro exI [of _ a]) simp
qed

text \<open>
  A writing pass under ABORT returns at the collision with what it has stored up to there:
  on 61 EE BE 80 it returns the sentinel after it has stored 61. (The header has the size
  taken with \<open>dst = NULL\<close> first; that pass stores nothing.)
\<close>

lemma xtf8_encode_abort_stored:
  "xtf8_encode 4096 [0x61, 0xEE, 0xBE, 0x80] XTF8_ERR_ABORT = (Inl XTF8_ABORTED, [0x61])"
  by (simp add: xtf8_eval)

section \<open>The claims\<close>

text \<open>
  C1, as the code has it. The README promises that the encoded string decodes to the
  original data when there was no collision. The input of one byte C2 (the lead byte of a
  two-byte sequence, with nothing after it) holds no reserved codepoint, yet both passes
  of the encoder produce nothing for it: the loop ends with the byte still pending and
  nothing flushes it. Decoding the empty output gives the empty buffer, not the input.
  (Under ABORT the encoder reports no collision for it.) In the same way 61 E2 82, the
  letter a and the first two bytes of a three-byte sequence, comes back as 61 alone.
\<close>

theorem xtf8_roundtrip_truncated_tail:
  "xtf8_encode NULL [0xC2] XTF8_ERR_REPLACE = (Inr 0, []) \<and>
   xtf8_encode 4096 [0xC2] XTF8_ERR_REPLACE = (Inr 4096, []) \<and>
   xtf8_decode NULL (snd (xtf8_encode 4096 [0xC2] XTF8_ERR_REPLACE)) XTF8_ERR_REPLACE
     = (Inr 0, []) \<and>
   xtf8_decode 4096 (snd (xtf8_encode 4096 [0xC2] XTF8_ERR_REPLACE)) XTF8_ERR_REPLACE
     = (Inr 4096, []) \<and>
   snd (xtf8_decode 4096 (snd (xtf8_encode 4096 [0xC2] XTF8_ERR_REPLACE)) XTF8_ERR_REPLACE)
     \<noteq> [0xC2] \<and>
   xtf8_encode NULL [0xC2] XTF8_ERR_ABORT = (Inr 0, []) \<and>
   xtf8_encode 4096 [0x61, 0xE2, 0x82] XTF8_ERR_REPLACE = (Inr (4096 + 1), [0x61]) \<and>
   xtf8_decode 4096 (snd (xtf8_encode 4096 [0x61, 0xE2, 0x82] XTF8_ERR_REPLACE))
     XTF8_ERR_REPLACE = (Inr (4096 + 1), [0x61])"
  by (simp add: xtf8_eval)

text \<open>
  C7, as stated: the bytes FF FE 80 would encode to EF BE BF, EF BE BE, EF BE 80. They do
  not: the codepoints 0xEF80 | (byte & 0x7F) are U+EFFF, U+EFFE and U+EF80, whose UTF-8
  forms start with EE.
\<close>

theorem encode_ff_fe_80_counterexample:
  "snd (xtf8_encode 4096 [0xFF, 0xFE, 0x80] XTF8_ERR_REPLACE)
     \<noteq> [0xEF, 0xBE, 0xBF, 0xEF, 0xBE, 0xBE, 0xEF, 0xBE, 0x80]"
  by (simp add: xtf8_eval)

text \<open>
  C7, amended: encoding FF FE 80 gives EE BF BF, EE BF BE, EE BE 80 (nine bytes, under
  either policy, the sizing pass returning 9), which are the 3-byte forms of
  0xEF80 | (byte & 0x7F); decoding those nine bytes under either policy gives back
  FF FE 80.
\<close>

theorem encode_ff_fe_80:
  "xtf8_encode NULL [0xFF, 0xFE, 0x80] XTF8_ERR_REPLACE = (Inr 9, []) \<and>
   xtf8_encode NULL [0xFF, 0xFE, 0x80] XTF8_ERR_ABORT = (Inr 9, []) \<and>
   xtf8_encode 4096 [0xFF, 0xFE, 0x80] XTF8_ERR_REPLACE
     = (Inr (4096 + 9), [0xEE, 0xBF, 0xBF, 0xEE, 0xBF, 0xBE, 0xEE, 0xBE, 0x80]) \<and>
   xtf8_encode 4096 [0xFF, 0xFE, 0x80] XTF8_ERR_ABORT
     = (Inr (4096 + 9), [0xEE, 0xBF, 0xBF, 0xEE, 0xBF, 0xBE, 0xEE, 0xBE, 0x80]) \<and>
   [0xEE, 0xBF, 0xBF, 0xEE, 0xBF, 0xBE, 0xEE, 0xBE, 0x80]
     = utf8_3 (0xEF80 OR (0xFF AND 0x7F)) @ utf8_3 (0xEF80 OR (0xFE AND 0x7F))
       @ utf8_3 (0xEF80 OR (0x80 AND 0x7F)) \<and>
   xtf8_decode NULL [0xEE, 0xBF, 0xBF, 0xEE, 0xBF, 0xBE, 0xEE, 0xBE, 0x80] XTF8_ERR_REPLACE
     = (Inr 3, []) \<and>
   xtf8_decode NULL [0xEE, 0xBF, 0xBF, 0xEE, 0xBF, 0xBE, 0xEE, 0xBE, 0x80] XTF8_ERR_ABORT
     = (Inr 3, []) \<and>
   xtf8_decode 4096 [0xEE, 0xBF, 0xBF, 0xEE, 0xBF, 0xBE, 0xEE, 0xBE, 0x80] XTF8_ERR_REPLACE
     = (Inr (4096 + 3), [0xFF, 0xFE, 0x80]) \<and>
   xtf8_decode 4096 [0xEE, 0xBF, 0xBF, 0xEE, 0xBF, 0xBE, 0xEE, 0xBE, 0x80] XTF8_ERR_ABORT
     = (Inr (4096 + 3), [0xFF, 0xFE, 0x80])"
  by (simp add: xtf8_eval)

text \<open>
  C8, as the code has it. Escaping 5C 22 gives 5C 5C 5C 22 and unescaping that gives 5C 22
  back. But the byte 01 escapes to the six characters of \<^verbatim>\<open>\u0001\<close>, and unescaping them
  fails: the \<^verbatim>\<open>'u'\<close> case tests \<^verbatim>\<open>s + 5 >= end\<close>, which also holds when the four digits
  are the last characters of the input.
\<close>

theorem json_roundtrip_trailing_u_escape:
  "json_escape NULL [0x5C, 0x22] = (4, []) \<and>
   json_escape 4096 [0x5C, 0x22] = (4096 + 4, [0x5C, 0x5C, 0x5C, 0x22]) \<and>
   json_unescape NULL [0x5C, 0x5C, 0x5C, 0x22] = Inr (2, []) \<and>
   json_unescape 4096 [0x5C, 0x5C, 0x5C, 0x22] = Inr (4096 + 2, [0x5C, 0x22]) \<and>
   json_escape NULL [0x01] = (6, []) \<and>
   json_escape 4096 [0x01] = (4096 + 6, [0x5C, 0x75, 0x30, 0x30, 0x30, 0x31]) \<and>
   json_unescape NULL (snd (json_escape 4096 [0x01])) = Inl JSON_ERR_UNESCAPE \<and>
   json_unescape 4096 (snd (json_escape 4096 [0x01])) = Inl JSON_ERR_UNESCAPE"
  by (simp add: json_eval)

text \<open>
  C10: decoding the single byte FF under the REPLACE policy needs three bytes of
  destination, the replacement sequence EF BF BD, so the output is longer than the input.
\<close>

theorem decode_ff_longer_than_input:
  "xtf8_decode NULL [0xFF] XTF8_ERR_REPLACE = (Inr 3, []) \<and>
   xtf8_decode 4096 [0xFF] XTF8_ERR_REPLACE = (Inr (4096 + 3), [0xEF, 0xBF, 0xBD]) \<and>
   length (snd (xtf8_decode 4096 [0xFF] XTF8_ERR_REPLACE)) > length [0xFF :: uint8_t]"
  by (simp add: xtf8_eval)

text \<open>
  C6: for every input buffer, policy and destination, no call of \<^verbatim>\<open>xtf8_encode\<close> stops at
  the assertion \<^verbatim>\<open>assert(*pos >= 0x80)\<close> of the REJECT branch: every byte of the pending
  region that the branch converts is at least 0x80. (The pending bytes are those that took
  the scanner from \<^verbatim>\<open>UTF8_ACCEPT\<close> through states that want more bytes, or the one byte
  rejected in \<^verbatim>\<open>UTF8_ACCEPT\<close>; the table sends every ASCII byte to \<^verbatim>\<open>UTF8_ACCEPT\<close> or
  \<^verbatim>\<open>UTF8_REJECT\<close>.)
\<close>

theorem reject_branch_bytes_non_ascii:
  "fst (xtf8_encode dst src error) \<noteq> Inl Assert_non_ascii"
  using xtf8_encode_result [of src error dst] by auto

text \<open>
  C3: for every input, \<^verbatim>\<open>xtf8_encode\<close> under the REPLACE policy returns (no abort, no failed
  assertion), and the bytes it stored are valid UTF-8: \<^verbatim>\<open>is_utf8\<close> holds of them, that is
  the scanner started in \<^verbatim>\<open>UTF8_ACCEPT\<close> ends in \<^verbatim>\<open>UTF8_ACCEPT\<close>, and it is in
  \<^verbatim>\<open>UTF8_REJECT\<close> after no prefix of them.
\<close>

theorem encode_replace_valid_utf8:
  "(\<exists>n. xtf8_encode dst src XTF8_ERR_REPLACE
          = (Inr (if dst = NULL then n else dst + length (snd (xtf8_encode dst src XTF8_ERR_REPLACE))),
             snd (xtf8_encode dst src XTF8_ERR_REPLACE))) \<and>
   is_utf8 (snd (xtf8_encode dst src XTF8_ERR_REPLACE))
           (length (snd (xtf8_encode dst src XTF8_ERR_REPLACE))) \<and>
   utf8_scan UTF8_ACCEPT (snd (xtf8_encode dst src XTF8_ERR_REPLACE)) = UTF8_ACCEPT \<and>
   (\<forall>k. utf8_scan UTF8_ACCEPT (take k (snd (xtf8_encode dst src XTF8_ERR_REPLACE)))
          \<noteq> UTF8_REJECT)"
proof -
  have ne: "XTF8_ERR_REPLACE \<noteq> XTF8_ERR_ABORT"
    by (simp add: XTF8_ERR_REPLACE_def XTF8_ERR_ABORT_def)
  from xtf8_encode_result [of src XTF8_ERR_REPLACE dst] ne
  obtain st' where i: "xtf8_encode_inv src st'" "xtf8_dst_inv dst st'"
    and e: "xtf8_encode dst src XTF8_ERR_REPLACE
              = (Inr (if dst = NULL then sz st' else dst + sz st'), mem st')"
    by blast
  from i(1) have v: "utf8_scan UTF8_ACCEPT (mem st') = UTF8_ACCEPT"
    by (simp add: xtf8_encode_inv_def)
  from i(2) have l: "dst \<noteq> NULL \<Longrightarrow> length (mem st') = sz st'"
    by (simp add: xtf8_dst_inv_def)
  show ?thesis
    using v l utf8_scan_never_reject [OF v]
    by (auto simp: e is_utf8_scan)
qed

text \<open>
  C2: for \<^verbatim>\<open>xtf8_encode\<close> and for \<^verbatim>\<open>xtf8_decode\<close>, every input and every policy: when the
  sizing pass (\<open>dst = NULL\<close>) does not return the abort sentinel, it returns a size \<open>n\<close>
  and stores nothing, and the writing pass on the same input stores exactly \<open>n\<close> bytes and
  returns \<open>dst + n\<close>.
\<close>

theorem sizing_pass_equals_writing_pass:
  assumes "dst \<noteq> NULL"
  shows "(fst (xtf8_encode NULL src error) \<noteq> Inl XTF8_ABORTED \<longrightarrow>
          (\<exists>n out. xtf8_encode NULL src error = (Inr n, []) \<and>
                    xtf8_encode dst src error = (Inr (dst + n), out) \<and> length out = n)) \<and>
         (fst (xtf8_decode NULL src error) \<noteq> Inl XTF8_ABORTED \<longrightarrow>
          (\<exists>n out. xtf8_decode NULL src error = (Inr n, []) \<and>
                    xtf8_decode dst src error = (Inr (dst + n), out) \<and> length out = n))"
proof (intro conjI impI)
  assume na: "fst (xtf8_encode NULL src error) \<noteq> Inl XTF8_ABORTED"
  from xtf8_encode_result [of src error NULL] na
  obtain a' where a: "xtf8_encode_loop src error (xtf8_init NULL) = (None, a')"
    "xtf8_dst_inv NULL a'" "xtf8_encode NULL src error = (Inr (sz a'), mem a')"
    by auto
  from xtf8_encode_loop_same_flow [where a = "xtf8_init NULL" and b = "xtf8_init dst"
         and src = src and da = NULL and db = dst and error = error,
         OF xtf8_init_same_flow xtf8_init_inv xtf8_init_inv] a(1)
  obtain b' where b: "xtf8_encode_loop src error (xtf8_init dst) = (None, b')" "sz a' = sz b'"
    by auto
  from xtf8_encode_result [of src error dst] b(1) assms
  have r: "xtf8_dst_inv dst b'" "xtf8_encode dst src error = (Inr (dst + sz b'), mem b')"
    by auto
  from a(2) r(1) assms have "mem a' = []" "length (mem b') = sz b'"
    by (simp_all add: xtf8_dst_inv_def)
  with a(3) r(2) b(2)
  show "\<exists>n out. xtf8_encode NULL src error = (Inr n, []) \<and>
                xtf8_encode dst src error = (Inr (dst + n), out) \<and> length out = n"
    by simp
next
  assume na: "fst (xtf8_decode NULL src error) \<noteq> Inl XTF8_ABORTED"
  from xtf8_decode_result [of src error NULL] na
  obtain a' where a: "xtf8_decode_loop src error (xtf8_init NULL) = (None, a')"
    "xtf8_dst_inv NULL a'" "xtf8_decode NULL src error = (Inr (sz a'), mem a')"
    by auto
  from xtf8_decode_loop_same_flow [where a = "xtf8_init NULL" and b = "xtf8_init dst"
         and src = src and error = error, OF xtf8_init_same_flow] a(1)
  obtain b' where b: "xtf8_decode_loop src error (xtf8_init dst) = (None, b')" "sz a' = sz b'"
    by auto
  from xtf8_decode_result [of src error dst] b(1) assms
  have r: "xtf8_dst_inv dst b'" "xtf8_decode dst src error = (Inr (dst + sz b'), mem b')"
    by auto
  from a(2) r(1) assms have "mem a' = []" "length (mem b') = sz b'"
    by (simp_all add: xtf8_dst_inv_def)
  with a(3) r(2) b(2)
  show "\<exists>n out. xtf8_decode NULL src error = (Inr n, []) \<and>
                xtf8_decode dst src error = (Inr (dst + n), out) \<and> length out = n"
    by simp
qed

text \<open>
  The two passes on the six bytes 41 FF E2 82 AC C3, into a destination at 4096.
\<close>

theorem sizing_pass_equals_writing_pass_witness:
  "(4096 :: nat) \<noteq> NULL \<and>
   fst (xtf8_encode NULL [0x41, 0xFF, 0xE2, 0x82, 0xAC, 0xC3] XTF8_ERR_REPLACE) \<noteq> Inl XTF8_ABORTED \<and>
   (\<exists>n out. xtf8_encode NULL [0x41, 0xFF, 0xE2, 0x82, 0xAC, 0xC3] XTF8_ERR_REPLACE = (Inr n, []) \<and>
             xtf8_encode 4096 [0x41, 0xFF, 0xE2, 0x82, 0xAC, 0xC3] XTF8_ERR_REPLACE
               = (Inr (4096 + n), out) \<and> length out = n) \<and>
   fst (xtf8_decode NULL [0x41, 0xFF, 0xE2, 0x82, 0xAC, 0xC3] XTF8_ERR_REPLACE) \<noteq> Inl XTF8_ABORTED \<and>
   (\<exists>n out. xtf8_decode NULL [0x41, 0xFF, 0xE2, 0x82, 0xAC, 0xC3] XTF8_ERR_REPLACE = (Inr n, []) \<and>
             xtf8_decode 4096 [0x41, 0xFF, 0xE2, 0x82, 0xAC, 0xC3] XTF8_ERR_REPLACE
               = (Inr (4096 + n), out) \<and> length out = n)"
proof -
  have h: "(4096 :: nat) \<noteq> NULL"
    by (simp add: NULL_def)
  have e: "fst (xtf8_encode NULL [0x41, 0xFF, 0xE2, 0x82, 0xAC, 0xC3] XTF8_ERR_REPLACE)
             \<noteq> Inl XTF8_ABORTED"
    by (simp add: xtf8_eval)
  have d: "fst (xtf8_decode NULL [0x41, 0xFF, 0xE2, 0x82, 0xAC, 0xC3] XTF8_ERR_REPLACE)
             \<noteq> Inl XTF8_ABORTED"
    by (simp add: xtf8_eval)
  from sizing_pass_equals_writing_pass
         [OF h, of "[0x41, 0xFF, 0xE2, 0x82, 0xAC, 0xC3]" XTF8_ERR_REPLACE] h e d
  show ?thesis by blast
qed

text \<open>
  C4: in any iteration of the loop of \<^verbatim>\<open>xtf8_decode\<close>, whatever the state and the bytes
  around (so also inside malformed input), when the scanner step accepts with a codepoint
  \<open>c\<close> of the reserved range U+EF80..U+EFFF, the iteration counts one byte and, with a
  destination, stores the one byte \<open>(c & 0x7F) | 0x80\<close>, which is at least 0x80; and no call
  of \<^verbatim>\<open>xtf8_decode\<close> stops at \<^verbatim>\<open>assert(v >= 0x80)\<close>.
\<close>

theorem decode_pua_byte_non_ascii:
  assumes "utf8_decode (s_cur st) (codepoint st) (ucast (src ! s st)) = (UTF8_ACCEPT, c)"
    and "XTF8_PUA_START \<le> c" and "c \<le> XTF8_PUA_END"
  shows "(\<exists>st'. xtf8_decode_body src error st = (None, st') \<and>
                sz st' = sz st + 1 \<and>
                mem st' = (if d st \<noteq> NULL then mem st @ [ucast ((c AND 0x7F) OR 0x80)]
                           else mem st)) \<and>
         (0x80 :: uint8_t) \<le> ucast ((c AND 0x7F) OR 0x80) \<and>
         fst (xtf8_decode dst buf policy) \<noteq> Inl Assert_v_non_ascii"
proof -
  from assms(1) have n: "utf8_next (s_cur st) (src ! s st) = UTF8_ACCEPT"
    and c: "utf8_codep (s_cur st) (codepoint st) (src ! s st) = c"
    by (simp_all add: utf8_decode_eq)
  from assms(2,3) c have p: "is_pua (utf8_codep (s_cur st) (codepoint st) (src ! s st))"
    by (simp add: is_pua_def)
  have "fst (xtf8_decode dst buf policy) \<noteq> Inl Assert_v_non_ascii"
    using xtf8_decode_result [of buf policy dst] by auto
  then show ?thesis
    using xtf8_decode_body_pua [OF n p, of error] c pua_byte_ge [of c]
    by (simp add: pua_byte_def)
qed

text \<open>
  The iteration that completes EE BE 80 (U+EF80) stores the byte 80.
\<close>

theorem decode_pua_byte_non_ascii_witness:
  "utf8_decode 24 0x3BE (ucast ([0xEE, 0xBE, 0x80 :: uint8_t] ! 2)) = (UTF8_ACCEPT, 0xEF80) \<and>
   XTF8_PUA_START \<le> 0xEF80 \<and> 0xEF80 \<le> XTF8_PUA_END \<and>
   (\<exists>st'. xtf8_decode_body [0xEE, 0xBE, 0x80] XTF8_ERR_ABORT
             \<lparr>d = 4096, mem = [], s = 2, sz = 0, s_prev = 24, s_cur = 24,
              codepoint = 0x3BE, pos = 0\<rparr> = (None, st') \<and>
          sz st' = 1 \<and> mem st' = [0x80]) \<and>
   fst (xtf8_decode 4096 [0x41, 0xEE, 0xBE, 0x80, 0xFF] XTF8_ERR_REPLACE) \<noteq> Inl Assert_v_non_ascii"
proof -
  let ?st = "\<lparr>d = 4096, mem = [], s = 2, sz = 0, s_prev = 24, s_cur = 24,
              codepoint = 0x3BE, pos = 0\<rparr> :: xtf8_state"
  have a: "utf8_decode (s_cur ?st) (codepoint ?st) (ucast ([0xEE, 0xBE, 0x80 :: uint8_t] ! s ?st))
             = (UTF8_ACCEPT, 0xEF80)"
    by (simp add: scanner_eval)
  have b: "XTF8_PUA_START \<le> 0xEF80" "0xEF80 \<le> XTF8_PUA_END"
    by (simp_all add: XTF8_PUA_START_def XTF8_PUA_END_def)
  from decode_pua_byte_non_ascii [OF a b, of XTF8_ERR_ABORT 4096 "[0x41, 0xEE, 0xBE, 0x80, 0xFF]"
         XTF8_ERR_REPLACE] a b
  show ?thesis by (simp add: NULL_def)
qed



text \<open>
  C9: the loop of \<^verbatim>\<open>xtf8_encode\<close> on \<open>B\<close> has ended, without abort, with the scanner in a
  state other than \<^verbatim>\<open>UTF8_ACCEPT\<close>: the input ends while the scanner still needs more
  bytes. Then the pending bytes \<open>B[pos..)\<close> are the unfinished sequence (there is at least
  one, and the scanner started in \<^verbatim>\<open>UTF8_ACCEPT\<close> wants more after each of them), and they
  produce no output: what the call returns and stores is what the loop on the bytes before
  them, \<open>take pos B\<close>, counts and stores, plus the three bytes for each byte that those
  bytes leave pending themselves (the first byte of the unfinished sequence closes an
  unfinished sequence before it). When the loop on \<open>take pos B\<close> ends in \<^verbatim>\<open>UTF8_ACCEPT\<close>,
  encoding \<open>B\<close> gives what encoding \<open>take pos B\<close> gives. So the single byte C2 gives
  length 0 under either policy and in either pass, the same as the empty buffer.
\<close>

theorem truncated_tail_no_output:
  assumes "xtf8_encode_loop B error (xtf8_init dst) = (None, st)"
    and "s_cur st \<noteq> UTF8_ACCEPT"
  shows "pos st < length B \<and>
         utf8_needs_more UTF8_ACCEPT (drop (pos st) B) \<and>
         (\<exists>a. xtf8_encode_loop (take (pos st) B) error (xtf8_init dst) = (None, a) \<and>
              xtf8_encode dst B error
                = (Inr (if dst = NULL then sz a + 3 * (pos st - pos a)
                        else dst + (sz a + 3 * (pos st - pos a))),
                   if dst = NULL then []
                   else mem a
                        @ concat (map pua_3 (pending (take (pos st) B) (pos a) (pos st)))) \<and>
              (s_cur a = UTF8_ACCEPT \<longrightarrow>
                 xtf8_encode dst B error = xtf8_encode dst (take (pos st) B) error)) \<and>
         xtf8_encode NULL [0xC2] XTF8_ERR_REPLACE = (Inr 0, []) \<and>
         xtf8_encode NULL [0xC2] XTF8_ERR_ABORT = (Inr 0, []) \<and>
         xtf8_encode 4096 [0xC2] XTF8_ERR_REPLACE = (Inr 4096, []) \<and>
         xtf8_encode 4096 [0xC2] XTF8_ERR_ABORT = (Inr 4096, []) \<and>
         xtf8_encode 4096 [] XTF8_ERR_REPLACE = xtf8_encode 4096 [0xC2] XTF8_ERR_REPLACE \<and>
         xtf8_encode 4096 [] XTF8_ERR_ABORT = xtf8_encode 4096 [0xC2] XTF8_ERR_ABORT"
proof -
  let ?P = "take (pos st) B"
  have ex: "xtf8_encode NULL [0xC2] XTF8_ERR_REPLACE = (Inr 0, [])"
    "xtf8_encode NULL [0xC2] XTF8_ERR_ABORT = (Inr 0, [])"
    "xtf8_encode 4096 [0xC2] XTF8_ERR_REPLACE = (Inr 4096, [])"
    "xtf8_encode 4096 [0xC2] XTF8_ERR_ABORT = (Inr 4096, [])"
    "xtf8_encode 4096 [] XTF8_ERR_REPLACE = xtf8_encode 4096 [0xC2] XTF8_ERR_REPLACE"
    "xtf8_encode 4096 [] XTF8_ERR_ABORT = xtf8_encode 4096 [0xC2] XTF8_ERR_ABORT"
    by (simp_all add: xtf8_eval)
  note t = xtf8_encode_loop_tail [OF assms]
  from xtf8_encode_result [of B error dst] assms(1)
  have res: "xtf8_encode dst B error = (Inr (if dst = NULL then sz st else dst + sz st), mem st)"
    by auto
  from t(4) obtain a where a: "xtf8_encode_loop ?P error (xtf8_init dst) = (None, a)"
    and ia: "xtf8_encode_inv ?P a" "xtf8_dst_inv dst a" "s a = pos st"
    and o: "sz st = sz a + 3 * (pos st - pos a)"
      "mem st = (if dst = NULL then []
                 else mem a @ concat (map pua_3 (pending B (pos a) (pos st))))"
    by blast
  from xtf8_encode_result [of ?P error dst] a
  have resP: "xtf8_encode dst ?P error = (Inr (if dst = NULL then sz a else dst + sz a), mem a)"
    by auto
  have acc: "xtf8_encode dst B error = xtf8_encode dst ?P error" if "s_cur a = UTF8_ACCEPT"
  proof -
    from that ia(1,3) have "pos a = pos st"
      by (simp add: xtf8_encode_inv_def)
    moreover from ia(2) have "dst = NULL \<Longrightarrow> mem a = []"
      by (simp add: xtf8_dst_inv_def)
    ultimately show ?thesis
      using res resP o by (simp add: pending_simps(1))
  qed
  have pt: "pending ?P i (pos st) = pending B i (pos st)" for i
    by (simp add: pending_take)
  have "\<exists>a. xtf8_encode_loop ?P error (xtf8_init dst) = (None, a) \<and>
              xtf8_encode dst B error
                = (Inr (if dst = NULL then sz a + 3 * (pos st - pos a)
                        else dst + (sz a + 3 * (pos st - pos a))),
                   if dst = NULL then []
                   else mem a
                        @ concat (map pua_3 (pending (take (pos st) B) (pos a) (pos st)))) \<and>
              (s_cur a = UTF8_ACCEPT \<longrightarrow>
                 xtf8_encode dst B error = xtf8_encode dst ?P error)"
    using a res o acc by (intro exI [of _ a]) (simp add: pt)
  with t(1,3) ex show ?thesis
    by simp
qed

text \<open>
  The buffer 61 C2 E2 82: C2 is converted when E2 is read, and E2 82 is the unfinished
  sequence, which gives nothing. The buffer 61 C2: it encodes as 61 does.
\<close>

theorem truncated_tail_no_output_witness:
  "xtf8_encode_loop [0x61, 0xC2, 0xE2, 0x82] XTF8_ERR_REPLACE (xtf8_init 4096)
     = (None, \<lparr>d = 4100, mem = [0x61, 0xEE, 0xBF, 0x82], s = 4, sz = 4, s_prev = 24,
               s_cur = 24, codepoint = 0x82, pos = 2\<rparr>) \<and>
   (24 :: uint32_t) \<noteq> UTF8_ACCEPT \<and>
   utf8_needs_more UTF8_ACCEPT (drop 2 [0x61, 0xC2, 0xE2, 0x82]) \<and>
   xtf8_encode_loop (take 2 [0x61, 0xC2, 0xE2, 0x82]) XTF8_ERR_REPLACE (xtf8_init 4096)
     = (None, \<lparr>d = 4097, mem = [0x61], s = 2, sz = 1, s_prev = 24, s_cur = 24,
               codepoint = 2, pos = 1\<rparr>) \<and>
   concat (map pua_3 (pending (take 2 [0x61, 0xC2, 0xE2, 0x82]) 1 2)) = [0xEE, 0xBF, 0x82] \<and>
   xtf8_encode 4096 [0x61, 0xC2, 0xE2, 0x82] XTF8_ERR_REPLACE
     = (Inr (4096 + (1 + 3 * (2 - 1))), [0x61] @ [0xEE, 0xBF, 0x82]) \<and>
   xtf8_encode_loop [0x61, 0xC2] XTF8_ERR_ABORT (xtf8_init NULL)
     = (None, \<lparr>d = 0, mem = [], s = 2, sz = 1, s_prev = 24, s_cur = 24,
               codepoint = 2, pos = 1\<rparr>) \<and>
   xtf8_encode_loop (take 1 [0x61, 0xC2]) XTF8_ERR_ABORT (xtf8_init NULL)
     = (None, \<lparr>d = 0, mem = [], s = 1, sz = 1, s_prev = 0, s_cur = UTF8_ACCEPT,
               codepoint = 0x61, pos = 1\<rparr>) \<and>
   xtf8_encode NULL [0x61, 0xC2] XTF8_ERR_ABORT
     = xtf8_encode NULL (take 1 [0x61, 0xC2]) XTF8_ERR_ABORT"
proof -
  have h: "xtf8_encode_loop [0x61, 0xC2, 0xE2, 0x82] XTF8_ERR_REPLACE (xtf8_init 4096)
     = (None, \<lparr>d = 4100, mem = [0x61, 0xEE, 0xBF, 0x82], s = 4, sz = 4, s_prev = 24,
               s_cur = 24, codepoint = 0x82, pos = 2\<rparr>)"
    "xtf8_encode_loop [0x61, 0xC2] XTF8_ERR_ABORT (xtf8_init NULL)
     = (None, \<lparr>d = 0, mem = [], s = 2, sz = 1, s_prev = 24, s_cur = 24,
               codepoint = 2, pos = 1\<rparr>)"
    by (simp_all add: xtf8_eval)
  have n: "s_cur \<lparr>d = 4100, mem = [0x61, 0xEE, 0xBF, 0x82], s = 4, sz = 4, s_prev = 24,
               s_cur = 24, codepoint = 0x82, pos = 2\<rparr> \<noteq> UTF8_ACCEPT"
    "s_cur \<lparr>d = 0, mem = [], s = 2, sz = 1, s_prev = 24, s_cur = 24,
               codepoint = 2, pos = 1\<rparr> \<noteq> UTF8_ACCEPT"
    by (simp_all add: UTF8_ACCEPT_def)
  have a: "xtf8_encode_loop (take 2 [0x61, 0xC2, 0xE2, 0x82]) XTF8_ERR_REPLACE (xtf8_init 4096)
     = (None, \<lparr>d = 4097, mem = [0x61], s = 2, sz = 1, s_prev = 24, s_cur = 24,
               codepoint = 2, pos = 1\<rparr>)"
    "xtf8_encode_loop (take 1 [0x61, 0xC2]) XTF8_ERR_ABORT (xtf8_init NULL)
     = (None, \<lparr>d = 0, mem = [], s = 1, sz = 1, s_prev = 0, s_cur = UTF8_ACCEPT,
               codepoint = 0x61, pos = 1\<rparr>)"
    by (simp_all add: xtf8_eval)
  have p: "concat (map pua_3 (pending (take 2 [0x61, 0xC2, 0xE2, 0x82]) 1 2))
             = [0xEE, 0xBF, 0x82]"
    by (simp add: pending_def pua_3_def utf8_3_def upt_conv_Cons)
  have e: "xtf8_encode NULL [0x61, 0xC2] XTF8_ERR_ABORT
             = xtf8_encode NULL (take 1 [0x61, 0xC2]) XTF8_ERR_ABORT"
    using truncated_tail_no_output [OF h(2) n(2)] a(2) by auto
  from truncated_tail_no_output [OF h(1) n(1)] e h n a p
  show ?thesis
    by (simp add: NULL_def)
qed

end
